theory Spec2Isabelle
  imports Main "HOL-Library.AList"
begin

section \<open>The key-value store client: requests with retry\<close>

text \<open>
  \<^verbatim>\<open>Client._request_with_retry\<close> (client.ts) sends one message over the port and
  retries when the port fails with a \<^verbatim>\<open>NanoPortError\<close>. Every other error is thrown
  again at once. The errors of the port are the two kinds the \<^verbatim>\<open>catch\<close> block tells
  apart with \<^verbatim>\<open>instanceof\<close>.
\<close>

datatype 'e error = NanoPortError 'e | OtherError 'e

fun is_NanoPortError :: "'e error \<Rightarrow> bool" where
  "is_NanoPortError (NanoPortError _) = True"
| "is_NanoPortError (OtherError _) = False"

text \<open>
  What the caller and the environment observe of one call: the value returned or the
  error thrown, how many times \<^verbatim>\<open>this._port.request(msg)\<close> was called, and the
  arguments of the \<^verbatim>\<open>setTimeout\<close> calls (milliseconds), in order.
\<close>

record ('e, 'r) outcome =
  result :: "'e error + 'r"
  requests :: nat
  timeouts :: "int list"

text \<open>
  The port is given by the outcome of its successive \<^verbatim>\<open>request\<close> calls: \<open>request n\<close> is
  what the call number \<open>n\<close> (from 0) answers, \<open>Inl\<close> when the promise is rejected. The
  loop \<^verbatim>\<open>for (;;)\<close> is the recursion; \<open>retries\<close> is the source's counter, \<open>n\<close> the number
  of calls made so far, \<open>slept\<close> the timeouts awaited so far.
\<close>

function request_loop ::
  "(nat \<Rightarrow> 'e error + 'r) \<Rightarrow> int \<Rightarrow> nat \<Rightarrow> int list \<Rightarrow> ('e, 'r) outcome" where
  "request_loop request retries n slept =
     (case request n of
        Inr resp \<Rightarrow> \<lparr>result = Inr resp, requests = Suc n, timeouts = slept\<rparr>
      | Inl e \<Rightarrow>
          if \<not> is_NanoPortError e
          then \<lparr>result = Inl e, requests = Suc n, timeouts = slept\<rparr>
          else if retries \<le> 0
          then \<lparr>result = Inl e, requests = Suc n, timeouts = slept\<rparr>
          else request_loop request (retries - 1) (Suc n)
                 (slept @ [(10 - retries) * 100]))"
  by pat_completeness auto
termination
  by (relation "measure (\<lambda>(request, retries, n, slept). nat retries)") auto

declare request_loop.simps [simp del]

definition request_with_retry :: "(nat \<Rightarrow> 'e error + 'r) \<Rightarrow> ('e, 'r) outcome" where
  "request_with_retry request = request_loop request 10 0 []"

text \<open>Ports used as concrete inputs: one that fails ten times with a transport error
  and then answers, one that never answers, one that refuses the request, and one that
  refuses it after two transport errors.\<close>

definition flaky_port :: "nat \<Rightarrow> string error + nat" where
  "flaky_port n = (if n < 10 then Inl (NanoPortError ''disconnected'') else Inr 42)"

definition dead_port :: "nat \<Rightarrow> nat error + unit" where
  "dead_port n = Inl (NanoPortError n)"

definition refusing_port :: "nat \<Rightarrow> string error + unit" where
  "refusing_port n = Inl (OtherError ''bad request'')"

definition rejecting_port :: "nat \<Rightarrow> string error + unit" where
  "rejecting_port n =
     (if n < 2 then Inl (NanoPortError ''disconnected'') else Inl (OtherError ''bad request''))"

definition transport_failure :: "'e error + 'r \<Rightarrow> bool" where
  "transport_failure x = (case x of Inl e \<Rightarrow> is_NanoPortError e | Inr _ \<Rightarrow> False)"

text \<open>The timeouts awaited before the first \<open>k\<close> retries: \<open>0, 100, 200, \<dots>\<close> milliseconds.\<close>

definition backoff :: "nat \<Rightarrow> int list" where
  "backoff k = map (\<lambda>i. int i * 100) [0..<k]"

section \<open>Listing a store page by page\<close>

text \<open>An entry of the store (proto.ts: \<^verbatim>\<open>{key, value}\<close>); the field \<^verbatim>\<open>value\<close> is
  \<open>val\<close> here.\<close>

record ('k, 'v) Entry =
  key :: 'k
  val :: 'v

text \<open>
  \<^verbatim>\<open>genericList\<close> (index.ts) is an asynchronous generator with a \<^verbatim>\<open>while (true)\<close> loop.
  The model returns the list of all entries it yields, as \<open>Some\<close>, when the loop is
  left; a loop that is never left has the value \<open>None\<close>.
\<close>

partial_function (option) genericList ::
  "('k option \<Rightarrow> nat \<Rightarrow> ('k, 'v) Entry list) \<Rightarrow> 'k option \<Rightarrow> ('k, 'v) Entry list option" where
  "genericList getChunk bound =
     (let res = getChunk bound 100 in
      if length res = 0 then Some []
      else Option.bind (genericList getChunk (Some (key (last res))))
             (\<lambda>rest. Some (res @ rest)))"

text \<open>\<^verbatim>\<open>Client.list\<close> and \<^verbatim>\<open>Client.listReverse\<close> (client.ts) start the generator with
  no bound, over the store's two page operations.\<close>

definition listAll ::
  "('k option \<Rightarrow> nat \<Rightarrow> ('k, 'v) Entry list) \<Rightarrow> ('k, 'v) Entry list option" where
  "listAll getStartingFrom' = genericList (\<lambda>bound limit. getStartingFrom' bound limit) None"

definition listReverse ::
  "('k option \<Rightarrow> nat \<Rightarrow> ('k, 'v) Entry list) \<Rightarrow> ('k, 'v) Entry list option" where
  "listReverse getEndingAt' = genericList (\<lambda>bound limit. getEndingAt' bound limit) None"

text \<open>
  Modelled from the spec: the service that answers \<^verbatim>\<open>getStartingFrom\<close> and
  \<^verbatim>\<open>getEndingAt\<close> is not among the sources (the client only forwards the request).
  The spec's words are: ``returns up to \<open>limit\<close> entries with key \<open>\<ge>\<close> bound (or from
  the start if unset), in ascending key order'', and for \<^verbatim>\<open>getEndingAt\<close> ``symmetric,
  descending order, key \<open>\<le>\<close> bound (or from the end)''. The table is given as the list
  of its entries in ascending key order.
\<close>

definition getStartingFrom ::
  "('k::linorder, 'v) Entry list \<Rightarrow> 'k option \<Rightarrow> nat \<Rightarrow> ('k, 'v) Entry list" where
  "getStartingFrom store bound limit =
     take limit (filter (\<lambda>e. case bound of None \<Rightarrow> True | Some b \<Rightarrow> b \<le> key e) store)"

definition getEndingAt ::
  "('k::linorder, 'v) Entry list \<Rightarrow> 'k option \<Rightarrow> nat \<Rightarrow> ('k, 'v) Entry list" where
  "getEndingAt store bound limit =
     take limit (filter (\<lambda>e. case bound of None \<Rightarrow> True | Some b \<Rightarrow> key e \<le> b) (rev store))"

text \<open>
  Modelled from the spec: the same two page operations with the bound itself left
  out of the page (key \<open>>\<close> bound, key \<open><\<close> bound), everything else as worded above.
\<close>

definition getStartingAfter ::
  "('k::linorder, 'v) Entry list \<Rightarrow> 'k option \<Rightarrow> nat \<Rightarrow> ('k, 'v) Entry list" where
  "getStartingAfter store bound limit =
     take limit (filter (\<lambda>e. case bound of None \<Rightarrow> True | Some b \<Rightarrow> b < key e) store)"

definition getEndingBefore ::
  "('k::linorder, 'v) Entry list \<Rightarrow> 'k option \<Rightarrow> nat \<Rightarrow> ('k, 'v) Entry list" where
  "getEndingBefore store bound limit =
     take limit (filter (\<lambda>e. case bound of None \<Rightarrow> True | Some b \<Rightarrow> key e < b) (rev store))"

text \<open>A table holds one entry per key; its listing is strictly ascending.\<close>

definition ascending :: "('k::linorder, 'v) Entry list \<Rightarrow> bool" where
  "ascending store = sorted_wrt (\<lambda>a b. key a < key b) store"

text \<open>Concrete tables: one entry, and the keys 1 to 250.\<close>

definition store1 :: "(nat, string) Entry list" where
  "store1 = [\<lparr>key = 1, val = ''a''\<rparr>]"

definition store250 :: "(nat, nat) Entry list" where
  "store250 = map (\<lambda>i. \<lparr>key = i, val = 2 * i\<rparr>) [1..<251]"

section \<open>The cache in front of a store\<close>

text \<open>
  \<^verbatim>\<open>KVSCache\<close> (index.ts) keeps three JavaScript \<^verbatim>\<open>Map\<close>s from keys to entry objects.
  The same entry object is shared between the maps and with the callers of \<^verbatim>\<open>get\<close>, and
  it is mutated in place, so the model has an explicit store \<open>heap\<close> from addresses to
  entry objects, and the maps hold addresses; \<open>next_ref\<close> is the address of the next
  object to be created. A \<^verbatim>\<open>Map\<close> iterates in insertion order:
  it is an association list, \<^verbatim>\<open>Map.set\<close> is \<^const>\<open>AList.update\<close> (in place for a key
  that is there, at the end otherwise) and \<^verbatim>\<open>Map.delete\<close> is \<^const>\<open>AList.delete\<close>.
\<close>

type_synonym ref = nat

text \<open>The calls the cache makes on the store it wraps (\<^verbatim>\<open>this.kvs\<close>), in order.\<close>

datatype ('k, 'v) kvs_call = KvsGet "'k list" | KvsSet "('k, 'v option) Entry list"

text \<open>
  \<^verbatim>\<open>_pending_io\<close> is \<^verbatim>\<open>null\<close> (\<open>Idle\<close>) or the promise of the running background loop.
  For a running loop the model records where it is suspended: before the callback given
  to \<^verbatim>\<open>later\<close> has started (\<open>Scheduled\<close>), at \<^verbatim>\<open>await this.kvs.get(batch)\<close> with the
  batches still to fetch (\<open>AwaitGet\<close>), at \<^verbatim>\<open>await this._fetch()\<close> once the fetch has
  nothing left to do (\<open>AwaitFetch\<close>), at \<^verbatim>\<open>await this.kvs.set(dirty)\<close> with the batches
  of entry objects still to flush (\<open>AwaitSet\<close>), and at \<^verbatim>\<open>await this._flush()\<close>
  (\<open>AwaitFlush\<close>).
\<close>

datatype 'k io_state =
  Idle | Scheduled | AwaitGet "'k list list" | AwaitFetch | AwaitSet "ref list list" | AwaitFlush

record ('k, 'v) KVSCache =
  heap :: "ref \<rightharpoonup> ('k, 'v option) Entry"
  next_ref :: ref
  entries :: "('k \<times> ref) list"
  needs_flush :: "('k \<times> ref) list"
  needs_fetch :: "('k \<times> ref) list"
  pending_io :: "'k io_state"
  crash_count :: nat
  kvs_calls :: "('k, 'v) kvs_call list"

text \<open>A cache as the constructor leaves it.\<close>

definition new_cache :: "('k, 'v) KVSCache" where
  "new_cache = \<lparr>heap = Map.empty, next_ref = 0, entries = [], needs_flush = [],
     needs_fetch = [], pending_io = Idle, crash_count = 0, kvs_calls = []\<rparr>"

text \<open>\<^verbatim>\<open>ent.value = v\<close> on the entry object at address \<open>r\<close>.\<close>

definition set_value :: "ref \<Rightarrow> 'v option \<Rightarrow> (ref \<rightharpoonup> ('k, 'v option) Entry)
    \<Rightarrow> (ref \<rightharpoonup> ('k, 'v option) Entry)" where
  "set_value r v h = h(r := map_option (\<lambda>e. e\<lparr>val := v\<rparr>) (h r))"

text \<open>\<^verbatim>\<open>_io\<close>: starts the background loop unless one is pending or three have crashed.
  The loop itself runs later, see \<open>step\<close> below.\<close>

definition io :: "('k, 'v) KVSCache \<Rightarrow> ('k, 'v) KVSCache" where
  "io s = (if pending_io s \<noteq> Idle then s
           else if crash_count s \<ge> 3 then s
           else s\<lparr>pending_io := Scheduled\<rparr>)"

text \<open>\<^verbatim>\<open>get\<close> returns the entry object, that is its address, and the cache after the call.\<close>

definition get :: "'k \<Rightarrow> ('k, 'v) KVSCache \<Rightarrow> ref \<times> ('k, 'v) KVSCache" where
  "get k s =
     (case map_of (entries s) k of
        Some e \<Rightarrow> (e, s)
      | None \<Rightarrow>
          (let e = next_ref s;
               s1 = s\<lparr>heap := (heap s)(e \<mapsto> \<lparr>key = k, val = None\<rparr>), next_ref := Suc e\<rparr>;
               s2 = s1\<lparr>entries := AList.update k e (entries s1)\<rparr>;
               s3 = s2\<lparr>needs_fetch := AList.update k e (needs_fetch s2)\<rparr>
           in (e, io s3)))"

definition getIfExists :: "'k \<Rightarrow> ('k, 'v) KVSCache \<Rightarrow> ref option" where
  "getIfExists k s = map_of (entries s) k"

definition set_entry :: "'k \<Rightarrow> 'v \<Rightarrow> ('k, 'v) KVSCache \<Rightarrow> ref \<times> ('k, 'v) KVSCache" where
  "set_entry k v s =
     (let (ent, s0) = get k s;
          s1 = s0\<lparr>heap := set_value ent (Some v) (heap s0)\<rparr>;
          s2 = s1\<lparr>needs_flush := AList.update k ent (needs_flush s1)\<rparr>;
          s3 = s2\<lparr>needs_fetch := AList.delete k (needs_fetch s2)\<rparr>
      in (ent, io s3))"

text \<open>The value read through an entry object; a missing object reads as no value.\<close>

definition value_at :: "('k, 'v) KVSCache \<Rightarrow> ref \<Rightarrow> 'v option" where
  "value_at s r = Option.bind (heap s r) val"

definition maybeInsert :: "'k \<Rightarrow> 'v \<Rightarrow> ('k, 'v) KVSCache \<Rightarrow> ref \<times> ('k, 'v) KVSCache" where
  "maybeInsert k v s =
     (let (ent, s0) = get k s in
      if value_at s0 ent \<noteq> None then (ent, s0)
      else
        (let s1 = s0\<lparr>heap := set_value ent (Some v) (heap s0)\<rparr>;
             s2 = s1\<lparr>needs_fetch := AList.update k ent (needs_fetch s1)\<rparr>;
             s3 = s2\<lparr>needs_flush := AList.update k ent (needs_flush s2)\<rparr>
         in (ent, io s3)))"

text \<open>\<^verbatim>\<open>_update\<close>: an update received from the service.\<close>

definition update :: "'k \<Rightarrow> 'v option \<Rightarrow> ('k, 'v) KVSCache \<Rightarrow> ('k, 'v) KVSCache" where
  "update k v s =
     (case map_of (entries s) k of
        None \<Rightarrow> s
      | Some ent \<Rightarrow>
          s\<lparr>heap := set_value ent v (heap s),
            needs_fetch := AList.delete k (needs_fetch s),
            needs_flush := AList.delete k (needs_flush s)\<rparr>)"

text \<open>The three listeners the constructor installs on the wrapped store.\<close>

definition onSet :: "('k, 'v) Entry list \<Rightarrow> ('k, 'v) KVSCache \<Rightarrow> ('k, 'v) KVSCache" where
  "onSet es s = foldl (\<lambda>s e. update (key e) (Some (val e)) s) s es"

definition onDelete :: "'k list \<Rightarrow> ('k, 'v) KVSCache \<Rightarrow> ('k, 'v) KVSCache" where
  "onDelete ks s = foldl (\<lambda>s k. update k None s) s ks"

definition onSyncLost :: "('k, 'v) KVSCache \<Rightarrow> ('k, 'v) KVSCache" where
  "onSyncLost s =
     io (foldl (\<lambda>s (k, v). s\<lparr>heap := set_value v None (heap s),
                              needs_fetch := AList.update k v (needs_fetch s)\<rparr>)
           s (entries s))"

subsection \<open>The background loop\<close>

text \<open>
  Modelled from the spec: \<^verbatim>\<open>batchesOf\<close> (util) is not among the sources. The spec's
  words are ``in batches of \<open>\<le>\<close>100 keys'': the items in order, cut into groups of
  \<open>n\<close>, the last group shorter when the items run out.
\<close>

function batchesOf :: "nat \<Rightarrow> 'a list \<Rightarrow> 'a list list" where
  "batchesOf n xs = (if n = 0 \<or> xs = [] then [] else take n xs # batchesOf n (drop n xs))"
  by pat_completeness auto
termination
  by (relation "measure (\<lambda>(n, xs). length xs)") auto

declare batchesOf.simps [simp del]

text \<open>
  The loop that \<^verbatim>\<open>_io\<close> starts runs between the other calls on the cache, and is
  suspended at each \<^verbatim>\<open>await\<close>. Each function below runs it from one suspension to the
  next, as one step.

  When the body throws, the \<^verbatim>\<open>catch\<close> handler counts the crash and the \<^verbatim>\<open>finally\<close>
  handler clears \<^verbatim>\<open>_pending_io\<close>. When the loop condition is false, only the
  \<^verbatim>\<open>finally\<close> handler runs.

  Modelled from the spec: \<^verbatim>\<open>later\<close> (util) and \<^verbatim>\<open>logErrorsFrom\<close> (util/oops) are not
  among the sources. The spec's words are that all methods of the cache are
  ``synchronous and non-blocking'' and only ``schedule I/O'', and that the crashes
  counted are the times ``the loop body raises'': \<^verbatim>\<open>later\<close> runs its callback after the
  call that scheduled it has returned, and \<^verbatim>\<open>logErrorsFrom\<close> passes the error of the body
  on to the \<^verbatim>\<open>catch\<close> handler.
\<close>

definition crash :: "('k, 'v) KVSCache \<Rightarrow> ('k, 'v) KVSCache" where
  "crash s = s\<lparr>crash_count := Suc (crash_count s), pending_io := Idle\<rparr>"

definition finish :: "('k, 'v) KVSCache \<Rightarrow> ('k, 'v) KVSCache" where
  "finish s = s\<lparr>pending_io := Idle\<rparr>"

text \<open>\<^verbatim>\<open>for (const e of entries) this._update(e.key, e.value)\<close>, the answer to one
  \<^verbatim>\<open>kvs.get\<close> in \<^verbatim>\<open>_fetch\<close>.\<close>

definition fetched :: "('k, 'v) Entry list \<Rightarrow> ('k, 'v) KVSCache \<Rightarrow> ('k, 'v) KVSCache" where
  "fetched es s = foldl (\<lambda>s e. update (key e) (Some (val e)) s) s es"

text \<open>The \<^verbatim>\<open>for\<close> loop of \<^verbatim>\<open>_fetch\<close> over the batches still to do: call \<^verbatim>\<open>kvs.get\<close> on
  the next one and wait, or return to the \<^verbatim>\<open>await\<close> in the caller.\<close>

fun next_get :: "'k list list \<Rightarrow> ('k, 'v) KVSCache \<Rightarrow> ('k, 'v) KVSCache" where
  "next_get [] s = s\<lparr>pending_io := AwaitFetch\<rparr>"
| "next_get (batch # rest) s =
     s\<lparr>kvs_calls := kvs_calls s @ [KvsGet batch], pending_io := AwaitGet rest\<rparr>"

definition fetch :: "('k, 'v) KVSCache \<Rightarrow> ('k, 'v) KVSCache" where
  "fetch s =
     (let m = needs_fetch s;
          s1 = s\<lparr>needs_fetch := []\<rparr>
      in next_get (batchesOf 100 (map fst m)) s1)"

text \<open>The \<^verbatim>\<open>for\<close> loop of \<^verbatim>\<open>_flush\<close>. \<^verbatim>\<open>JSON.parse(JSON.stringify(batch))\<close> copies the
  entry objects of the batch as they are when the batch is sent.\<close>

fun next_set :: "ref list list \<Rightarrow> ('k, 'v) KVSCache \<Rightarrow> ('k, 'v) KVSCache" where
  "next_set [] s = s\<lparr>pending_io := AwaitFlush\<rparr>"
| "next_set (batch # rest) s =
     (let dirty = List.map_filter (heap s) batch
      in s\<lparr>kvs_calls := kvs_calls s @ [KvsSet dirty], pending_io := AwaitSet rest\<rparr>)"

definition flush :: "('k, 'v) KVSCache \<Rightarrow> ('k, 'v) KVSCache" where
  "flush s =
     (let m = needs_flush s;
          s1 = s\<lparr>needs_flush := []\<rparr>
      in next_set (batchesOf 100 (map snd m)) s1)"

text \<open>The head of the \<^verbatim>\<open>while\<close> loop.\<close>

definition loop :: "('k, 'v) KVSCache \<Rightarrow> ('k, 'v) KVSCache" where
  "loop s = (if length (needs_fetch s) > 0 \<or> length (needs_flush s) > 0 then fetch s
             else finish s)"

text \<open>
  Everything that can happen to a cache: the three calls of its users, the three
  notifications of the wrapped store, and the continuation of the background loop:
  \<open>Resume\<close> where it waits for nothing from the store, \<open>GetDone\<close> and \<open>GetFailed\<close> when
  the promise of \<^verbatim>\<open>kvs.get\<close> is resolved or rejected, \<open>SetDone\<close> and \<open>SetFailed\<close> for
  \<^verbatim>\<open>kvs.set\<close>. A continuation for which the loop does not wait cannot happen and
  changes nothing.
\<close>

datatype ('k, 'v) event =
    CallGet 'k
  | CallSet 'k 'v
  | CallMaybeInsert 'k 'v
  | NotifySet "('k, 'v) Entry list"
  | NotifyDelete "'k list"
  | NotifySyncLost
  | Resume
  | GetDone "('k, 'v) Entry list"
  | GetFailed
  | SetDone
  | SetFailed

fun step :: "('k, 'v) event \<Rightarrow> ('k, 'v) KVSCache \<Rightarrow> ('k, 'v) KVSCache" where
  "step (CallGet k) s = snd (get k s)"
| "step (CallSet k v) s = snd (set_entry k v s)"
| "step (CallMaybeInsert k v) s = snd (maybeInsert k v s)"
| "step (NotifySet es) s = onSet es s"
| "step (NotifyDelete ks) s = onDelete ks s"
| "step NotifySyncLost s = onSyncLost s"
| "step Resume s =
     (case pending_io s of
        Scheduled \<Rightarrow> loop s
      | AwaitFetch \<Rightarrow> flush s
      | AwaitFlush \<Rightarrow> loop s
      | _ \<Rightarrow> s)"
| "step (GetDone es) s =
     (case pending_io s of AwaitGet rest \<Rightarrow> next_get rest (fetched es s) | _ \<Rightarrow> s)"
| "step GetFailed s = (case pending_io s of AwaitGet rest \<Rightarrow> crash s | _ \<Rightarrow> s)"
| "step SetDone s = (case pending_io s of AwaitSet rest \<Rightarrow> next_set rest s | _ \<Rightarrow> s)"
| "step SetFailed s = (case pending_io s of AwaitSet rest \<Rightarrow> crash s | _ \<Rightarrow> s)"

definition run :: "('k, 'v) event list \<Rightarrow> ('k, 'v) KVSCache \<Rightarrow> ('k, 'v) KVSCache" where
  "run evs s = foldl (\<lambda>s ev. step ev s) s evs"

text \<open>The keys passed to \<^verbatim>\<open>get\<close>, \<^verbatim>\<open>set\<close> or \<^verbatim>\<open>maybeInsert\<close> in a sequence of events.\<close>

fun touched :: "('k, 'v) event list \<Rightarrow> 'k list" where
  "touched [] = []"
| "touched (CallGet k # evs) = k # touched evs"
| "touched (CallSet k v # evs) = k # touched evs"
| "touched (CallMaybeInsert k v # evs) = k # touched evs"
| "touched (_ # evs) = touched evs"

subsection \<open>Well-formed caches\<close>

text \<open>Every tracked key has an entry object that was allocated, and that carries
  the key.\<close>

definition heap_ok :: "('k, 'v) KVSCache \<Rightarrow> bool" where
  "heap_ok s =
     list_all (\<lambda>(k, r). r < next_ref s \<and> map_option key (heap s r) = Some k) (entries s)"

text \<open>The entries map has one entry per key (it is a \<^verbatim>\<open>Map\<close>), and what is queued
  under a key, for fetch or for flush, is the entry object tracked under that key.\<close>

definition queues_ok :: "('k, 'v) KVSCache \<Rightarrow> bool" where
  "queues_ok s =
     (distinct (map fst (entries s)) \<and>
      list_all (\<lambda>(k, r). map_of (entries s) k = Some r) (needs_fetch s @ needs_flush s))"

text \<open>The value a fetch answer carries for a key: that of its last entry for the key,
  which is the one \<^verbatim>\<open>_update\<close> applies last.\<close>

definition fetched_value :: "('k, 'v) Entry list \<Rightarrow> 'k \<Rightarrow> 'v option" where
  "fetched_value es k = map_of (map (\<lambda>e. (key e, val e)) (rev es)) k"

text \<open>Once three loops have crashed, no loop is pending.\<close>

definition crash_inv :: "('k, 'v) KVSCache \<Rightarrow> bool" where
  "crash_inv s = (3 \<le> crash_count s \<longrightarrow> pending_io s = Idle)"

text \<open>Concrete caches: one in use, with a write of key 1 and a speculative insert of
  key 3 waiting to be flushed and keys 2 and 3 waiting to be fetched; and one whose
  background loop has crashed three times, twice in \<^verbatim>\<open>kvs.get\<close> and once in
  \<^verbatim>\<open>kvs.set\<close>.\<close>

definition demo_cache :: "(nat, string) KVSCache" where
  "demo_cache = run [CallSet 1 ''a'', CallGet 2, CallMaybeInsert 3 ''c''] new_cache"

definition crashed_cache :: "(nat, string) KVSCache" where
  "crashed_cache =
     run [CallGet 1, Resume, GetFailed, CallGet 2, Resume, GetFailed,
          CallSet 3 ''c'', Resume, Resume, SetFailed] new_cache"

section \<open>Properties of the client's retry loop\<close>

text \<open>While the port keeps failing with transport errors and retries are left, the loop
  goes on: after \<open>k\<close> such failures it has made \<open>k\<close> calls and awaited the first \<open>k\<close>
  timeouts.\<close>

lemma request_loop_streak:
  "\<forall>i<k. transport_failure (request (n + i)) \<Longrightarrow> int k \<le> retries \<Longrightarrow>
   request_loop request retries n slept =
   request_loop request (retries - int k) (n + k)
     (slept @ map (\<lambda>i. (10 - retries + int i) * 100) [0..<k])"
proof (induction k arbitrary: retries n slept)
  case 0
  then show ?case by simp
next
  case (Suc k)
  from Suc.prems(1) have f0: "transport_failure (request n)" by force
  from Suc.prems(1) have fs: "\<forall>i<k. transport_failure (request (Suc n + i))" by force
  from Suc.prems(2) have r: "0 < retries" "int k \<le> retries - 1" by simp_all
  from f0 obtain e where e: "request n = Inl e" "is_NanoPortError e"
    by (auto simp: transport_failure_def split: sum.splits)
  have "request_loop request retries n slept =
        request_loop request (retries - 1) (Suc n) (slept @ [(10 - retries) * 100])"
    using e r by (subst request_loop.simps) simp
  also have "\<dots> = request_loop request (retries - 1 - int k) (Suc n + k)
        ((slept @ [(10 - retries) * 100]) @ map (\<lambda>i. (10 - (retries - 1) + int i) * 100) [0..<k])"
    by (rule Suc.IH [OF fs r(2)])
  also have "(slept @ [(10 - retries) * 100]) @ map (\<lambda>i. (10 - (retries - 1) + int i) * 100) [0..<k]
     = slept @ map (\<lambda>i. (10 - retries + int i) * 100) [0..<Suc k]"
    by (simp add: upt_rec [of 0 "Suc k"] map_Suc_upt [symmetric] del: upt_Suc)
  finally show ?case by (simp add: diff_diff_eq)
qed

lemma request_with_retry_streak:
  assumes "\<forall>i<k. transport_failure (request i)" "k \<le> 10"
  shows "request_with_retry request = request_loop request (10 - int k) k (backoff k)"
  using request_loop_streak [of k request 0 10 "[]"] assms
  by (simp add: request_with_retry_def backoff_def)

lemma request_loop_stop:
  "\<not> transport_failure (request n) \<or> retries \<le> 0 \<Longrightarrow>
   request_loop request retries n slept = \<lparr>result = request n, requests = Suc n, timeouts = slept\<rparr>"
  by (subst request_loop.simps) (auto simp: transport_failure_def split: sum.splits)

lemma backoff_10: "backoff 10 = [0, 100, 200, 300, 400, 500, 600, 700, 800, 900]"
  by (simp add: backoff_def upt_rec)

lemma request_with_retry_cases:
  "\<exists>k\<le>10. (\<forall>i<k. transport_failure (request i)) \<and>
     (k < 10 \<longrightarrow> \<not> transport_failure (request k)) \<and>
     request_with_retry request = \<lparr>result = request k, requests = Suc k, timeouts = backoff k\<rparr>"
proof (cases "\<forall>i<10. transport_failure (request i)")
  case True
  from request_with_retry_streak [OF True] True show ?thesis
    by (intro exI [of _ 10]) (simp add: request_loop_stop)
next
  case False
  then have "\<exists>k. k < 10 \<and> \<not> transport_failure (request k)" by blast
  then obtain k where k: "k < 10 \<and> \<not> transport_failure (request k)"
    and least: "\<forall>i<k. \<not> (i < 10 \<and> \<not> transport_failure (request i))"
    using exists_least_iff [of "\<lambda>k. k < 10 \<and> \<not> transport_failure (request k)"] by blast
  from least k have streak: "\<forall>i<k. transport_failure (request i)" by auto
  from request_with_retry_streak [OF streak] k show ?thesis
    by (intro exI [of _ k]) (simp add: request_loop_stop streak)
qed

lemma request_with_retry_bounded:
  "requests (request_with_retry request) \<le> 11 \<and>
   timeouts (request_with_retry request) = backoff (requests (request_with_retry request) - 1)"
  using request_with_retry_cases [of request] by auto

text \<open>
  C2, as amended. A request is sent at most eleven times (once, and up to ten
  retries), and the timeout awaited before retry number \<open>n\<close> is \<open>(n - 1) * 100\<close>
  milliseconds. When the first eleven calls of the port all fail with a transport
  error, the caller gets the error of the eleventh call, and the timeouts awaited
  were 0, 100, ..., 900 milliseconds, 4500 milliseconds in all.
\<close>

theorem request_with_retry_exhausted:
  "requests (request_with_retry request) \<le> 11 \<and>
   timeouts (request_with_retry request) = backoff (requests (request_with_retry request) - 1) \<and>
   ((\<forall>i<11. transport_failure (request i)) \<longrightarrow>
      request_with_retry request =
        \<lparr>result = request 10, requests = 11,
         timeouts = [0, 100, 200, 300, 400, 500, 600, 700, 800, 900]\<rparr> \<and>
      sum_list (timeouts (request_with_retry request)) = 4500)"
proof (intro conjI impI)
  show "requests (request_with_retry request) \<le> 11"
    and "timeouts (request_with_retry request) = backoff (requests (request_with_retry request) - 1)"
    using request_with_retry_bounded [of request] by simp_all
next
  assume "\<forall>i<11. transport_failure (request i)"
  then have "\<forall>i<10. transport_failure (request i)" by simp
  from request_with_retry_streak [OF this]
  show "request_with_retry request =
      \<lparr>result = request 10, requests = 11,
       timeouts = [0, 100, 200, 300, 400, 500, 600, 700, 800, 900]\<rparr>"
    and "sum_list (timeouts (request_with_retry request)) = 4500"
    by (simp_all add: request_loop_stop backoff_10)
qed

theorem request_with_retry_exhausted_witness:
  "request_with_retry dead_port =
     \<lparr>result = Inl (NanoPortError 10), requests = 11,
      timeouts = [0, 100, 200, 300, 400, 500, 600, 700, 800, 900]\<rparr>"
  using request_with_retry_exhausted [of dead_port]
  by (simp add: dead_port_def transport_failure_def)

text \<open>Ten failed attempts are not the end: the port that fails ten times and then
  answers is asked an eleventh time, its answer is returned, and 4500 milliseconds of
  timeouts have been awaited by then.\<close>

theorem ten_failures_counterexample:
  "result (request_with_retry flaky_port) = Inr 42 \<and>
   requests (request_with_retry flaky_port) = 11 \<and>
   sum_list (timeouts (request_with_retry flaky_port)) = 4500"
proof -
  have "\<forall>i<10. transport_failure (flaky_port i)"
    by (simp add: flaky_port_def transport_failure_def)
  moreover have "flaky_port 10 = Inr 42"
    by (simp add: flaky_port_def)
  ultimately show ?thesis
    using request_with_retry_streak [of 10 flaky_port]
    by (simp add: request_loop_stop backoff_10 transport_failure_def)
qed

text \<open>
  C7. An error of the port that is not a transport error is thrown to the caller by
  the attempt that meets it: no call of the port and no timeout follows it. When it
  is the first attempt that meets it (\<open>k = 0\<close>), the port was called once and no timeout
  was awaited.
\<close>

theorem service_error_not_retried:
  assumes "\<forall>i<k. transport_failure (request i)" and "k \<le> 10"
    and "request k = Inl e" and "\<not> is_NanoPortError e"
  shows "request_with_retry request = \<lparr>result = Inl e, requests = Suc k, timeouts = backoff k\<rparr>"
  using request_with_retry_streak [OF assms(1,2)] assms(3,4)
  by (simp add: request_loop_stop transport_failure_def)

theorem service_error_not_retried_witness:
  "request_with_retry refusing_port =
     \<lparr>result = Inl (OtherError ''bad request''), requests = 1, timeouts = []\<rparr>
   \<and> request_with_retry rejecting_port =
     \<lparr>result = Inl (OtherError ''bad request''), requests = 3, timeouts = [0, 100]\<rparr>"
  using service_error_not_retried [of 0 refusing_port "OtherError ''bad request''"]
    service_error_not_retried [of 2 rejecting_port "OtherError ''bad request''"]
  by (simp add: refusing_port_def rejecting_port_def transport_failure_def backoff_def upt_rec)

section \<open>Properties of the paged listing\<close>

text \<open>A loop whose pages are never empty is never left.\<close>

lemma genericList_diverges:
  fixes getChunk :: "'k option \<Rightarrow> nat \<Rightarrow> ('k, 'v) Entry list"
  assumes start: "P bound"
    and step: "\<And>b. P b \<Longrightarrow> getChunk b 100 \<noteq> [] \<and> P (Some (key (last (getChunk b 100))))"
  shows "genericList getChunk bound = None"
proof -
  have never: "g = getChunk \<longrightarrow> P b \<longrightarrow> False" if ret: "genericList g b = Some ys" for g b ys
  proof (rule genericList.raw_induct
      [where P = "\<lambda>g b ys. g = getChunk \<longrightarrow> P b \<longrightarrow> False", OF _ ret])
    fix loop :: "('k option \<Rightarrow> nat \<Rightarrow> ('k, 'v) Entry list) \<Rightarrow> 'k option \<Rightarrow> ('k, 'v) Entry list option"
    fix g b and ys :: "('k, 'v) Entry list"
    assume IH: "\<And>g b ys. loop g b = Some ys \<Longrightarrow> g = getChunk \<longrightarrow> P b \<longrightarrow> False"
    assume eq: "(let res = g b 100 in
        if length res = 0 then Some []
        else Option.bind (loop g (Some (key (last res)))) (\<lambda>rest. Some (res @ rest))) = Some ys"
    show "g = getChunk \<longrightarrow> P b \<longrightarrow> False"
    proof (intro impI)
      assume gc: "g = getChunk" and Pb: "P b"
      from step [OF Pb] have ne: "g b 100 \<noteq> []" and P': "P (Some (key (last (g b 100))))"
        using gc by simp_all
      from eq ne obtain rest where "loop g (Some (key (last (g b 100)))) = Some rest"
        by (auto simp: Let_def split: bind_splits)
      from IH [OF this] gc P' show False by blast
    qed
  qed
  show ?thesis
  proof (cases "genericList getChunk bound")
    case None
    then show ?thesis .
  next
    case (Some ys)
    from never [OF Some] start show ?thesis by simp
  qed
qed

lemma getStartingFrom_nonempty:
  assumes "store \<noteq> []" "b = None \<or> (\<exists>e \<in> set store. b = Some (key e))"
  shows "getStartingFrom store b 100 \<noteq> [] \<and>
    (\<exists>e \<in> set store. Some (key (last (getStartingFrom store b 100))) = Some (key e))"
proof -
  let ?f = "filter (\<lambda>e. case b of None \<Rightarrow> True | Some b \<Rightarrow> b \<le> key e) store"
  have "?f \<noteq> []" using assms by (auto simp: filter_empty_conv neq_Nil_conv)
  then have ne: "take 100 ?f \<noteq> []" by simp
  then have "last (take 100 ?f) \<in> set (take 100 ?f)" by (rule last_in_set)
  then have "last (take 100 ?f) \<in> set store" by (auto dest: in_set_takeD)
  with ne show ?thesis by (auto simp: getStartingFrom_def)
qed

lemma list_inclusive_diverges:
  assumes "store \<noteq> []"
  shows "listAll (getStartingFrom store) = None"
  unfolding listAll_def
  by (rule genericList_diverges [where P = "\<lambda>b. b = None \<or> (\<exists>e \<in> set store. b = Some (key e))"])
     (use getStartingFrom_nonempty [OF assms] in auto)

lemma getEndingAt_nonempty:
  assumes "store \<noteq> []" "b = None \<or> (\<exists>e \<in> set store. b = Some (key e))"
  shows "getEndingAt store b 100 \<noteq> [] \<and>
    (\<exists>e \<in> set store. Some (key (last (getEndingAt store b 100))) = Some (key e))"
proof -
  let ?f = "filter (\<lambda>e. case b of None \<Rightarrow> True | Some b \<Rightarrow> key e \<le> b) (rev store)"
  have "?f \<noteq> []" using assms by (auto simp: filter_empty_conv neq_Nil_conv)
  then have ne: "take 100 ?f \<noteq> []" by simp
  then have "last (take 100 ?f) \<in> set (take 100 ?f)" by (rule last_in_set)
  then have "last (take 100 ?f) \<in> set store" by (auto dest: in_set_takeD)
  with ne show ?thesis by (auto simp: getEndingAt_def)
qed

lemma listReverse_inclusive_diverges:
  assumes "store \<noteq> []"
  shows "listReverse (getEndingAt store) = None"
  unfolding listReverse_def
  by (rule genericList_diverges [where P = "\<lambda>b. b = None \<or> (\<exists>e \<in> set store. b = Some (key e))"])
     (use getEndingAt_nonempty [OF assms] in auto)

lemma filter_after:
  "sorted_wrt (\<lambda>a b. key a < key b) (pre @ x # post) \<Longrightarrow>
   filter (\<lambda>e. key x < key e) (pre @ x # post) = post"
  for x :: "('k::linorder, 'v) Entry"
  by (auto simp: sorted_wrt_append filter_empty_conv filter_id_conv)

lemma filter_before:
  "sorted_wrt (\<lambda>a b. key b < key a) (pre @ x # post) \<Longrightarrow>
   filter (\<lambda>e. key e < key x) (pre @ x # post) = post"
  for x :: "('k::linorder, 'v) Entry"
  by (auto simp: sorted_wrt_append filter_empty_conv filter_id_conv)

lemma ascending_store250: "ascending store250"
  unfolding ascending_def store250_def
  by (simp add: sorted_wrt_map del: upt_Suc)

text \<open>When every page is the next hundred entries after the bound, in a fixed listing
  of the table, the loop yields that listing and stops.\<close>

lemma take_split_last:
  assumes "xs \<noteq> []" "0 < n"
  shows "xs = butlast (take n xs) @ last (take n xs) # drop n xs"
proof -
  have "take n xs \<noteq> []" using assms by simp
  then have "take n xs = butlast (take n xs) @ [last (take n xs)]" by simp
  then have "take n xs @ drop n xs = (butlast (take n xs) @ [last (take n xs)]) @ drop n xs"
    by simp
  then show ?thesis by simp
qed

lemma genericList_pages:
  assumes page: "\<And>pre x post. all = pre @ x # post \<Longrightarrow> getChunk (Some (key x)) 100 = take 100 post"
  shows "all = pre @ x # post \<Longrightarrow> genericList getChunk (Some (key x)) = Some post"
proof (induction "length post" arbitrary: pre x post rule: less_induct)
  case less
  have res: "getChunk (Some (key x)) 100 = take 100 post" using page less.prems by blast
  show ?case
  proof (cases "post = []")
    case True
    then show ?thesis using res by (subst genericList.simps) simp
  next
    case False
    let ?res = "take 100 post"
    have ne: "?res \<noteq> []" using False by simp
    have split: "post = butlast ?res @ last ?res # drop 100 post"
      using False by (intro take_split_last) simp_all
    have all': "all = (pre @ x # butlast ?res) @ last ?res # drop 100 post"
      using less.prems split by simp
    have "length (drop 100 post) < length post" using False by simp
    from less.hyps [OF this all']
    have "genericList getChunk (Some (key (last ?res))) = Some (drop 100 post)" .
    then show ?thesis using res ne by (subst genericList.simps) (simp add: Let_def)
  qed
qed

lemma genericList_all:
  assumes first: "getChunk None 100 = take 100 all"
    and page: "\<And>pre x post. all = pre @ x # post \<Longrightarrow> getChunk (Some (key x)) 100 = take 100 post"
  shows "genericList getChunk None = Some all"
proof (cases "all = []")
  case True
  then show ?thesis using first by (subst genericList.simps) simp
next
  case False
  let ?res = "take 100 all"
  have ne: "?res \<noteq> []" using False by simp
  have split: "all = butlast ?res @ last ?res # drop 100 all"
    using False by (intro take_split_last) simp_all
  from genericList_pages [of all getChunk, OF page split]
  have "genericList getChunk (Some (key (last ?res))) = Some (drop 100 all)" by simp
  then show ?thesis using first ne by (subst genericList.simps) (simp add: Let_def)
qed

text \<open>
  C1, as amended. Over a table with one entry per key, when a page holds the (at most
  100) entries whose key is strictly beyond the bound, \<^verbatim>\<open>list()\<close> stops and yields
  exactly the entries of the table in ascending key order, and \<^verbatim>\<open>listReverse()\<close> stops
  and yields them in descending order.
\<close>

theorem list_exclusive_bound:
  assumes "ascending store"
  shows "listAll (getStartingAfter store) = Some store \<and>
         listReverse (getEndingBefore store) = Some (rev store)"
proof
  show "listAll (getStartingAfter store) = Some store"
    unfolding listAll_def
  proof (rule genericList_all)
    show "getStartingAfter store None 100 = take 100 store"
      by (simp add: getStartingAfter_def)
  next
    fix pre x post
    assume split: "store = pre @ x # post"
    with assms have "filter (\<lambda>e. key x < key e) (pre @ x # post) = post"
      by (intro filter_after) (simp add: ascending_def)
    with split show "getStartingAfter store (Some (key x)) 100 = take 100 post"
      by (simp only: getStartingAfter_def option.case)
  qed
next
  have desc: "sorted_wrt (\<lambda>a b. key b < key a) (rev store)"
    using assms by (simp add: ascending_def sorted_wrt_rev)
  show "listReverse (getEndingBefore store) = Some (rev store)"
    unfolding listReverse_def
  proof (rule genericList_all)
    show "getEndingBefore store None 100 = take 100 (rev store)"
      by (simp add: getEndingBefore_def)
  next
    fix pre x post
    assume split: "rev store = pre @ x # post"
    with desc have "filter (\<lambda>e. key e < key x) (pre @ x # post) = post"
      by (intro filter_before) simp
    with split show "getEndingBefore store (Some (key x)) 100 = take 100 post"
      by (simp only: getEndingBefore_def option.case)
  qed
qed

theorem list_exclusive_bound_witness:
  "listAll (getStartingAfter store250) = Some store250 \<and>
   listReverse (getEndingBefore store250) = Some (rev store250) \<and>
   length store250 = 250"
  using list_exclusive_bound [OF ascending_store250]
  by (simp add: store250_def)

text \<open>With pages that include the bound itself (key \<open>\<ge>\<close> bound for \<^verbatim>\<open>list\<close>, key \<open>\<le>\<close>
  bound for \<^verbatim>\<open>listReverse\<close>), the last entry of a page comes back as the first entry
  of the next one, no page is empty, and the loop is never left, even over a table of
  one entry.\<close>

theorem list_inclusive_bound_counterexample:
  "listAll (getStartingFrom store1) = None \<and> listReverse (getEndingAt store1) = None"
  by (simp add: list_inclusive_diverges listReverse_inclusive_diverges store1_def)

section \<open>Properties of the cache\<close>

subsection \<open>Association lists\<close>

lemma set_update_subset: "set (AList.update k v al) \<subseteq> insert (k, v) (set al)"
  by (induction al) auto

lemma set_delete_subset: "set (AList.delete k al) \<subseteq> set al"
  by (auto simp: AList.delete_eq)

lemma map_of_update_same: "map_of (AList.update k v al) k = Some v"
  by (simp add: update_conv')

lemma update_untracked: "map_of al k = None \<Longrightarrow> AList.update k v al = al @ [(k, v)]"
  by (induction al) (auto split: if_splits)

subsection \<open>What the operations leave alone\<close>

lemma io_fields [simp]:
  "heap (io s) = heap s" "next_ref (io s) = next_ref s" "entries (io s) = entries s"
  "needs_flush (io s) = needs_flush s" "needs_fetch (io s) = needs_fetch s"
  "crash_count (io s) = crash_count s" "kvs_calls (io s) = kvs_calls s"
  by (simp_all add: io_def)

lemma value_at_io [simp]: "value_at (io s) r = value_at s r"
  by (simp add: value_at_def)

lemma get_tracked: "map_of (entries s) k = Some e \<Longrightarrow> get k s = (e, s)"
  by (simp add: get_def)

lemma get_untracked:
  "map_of (entries s) k = None \<Longrightarrow>
   get k s = (next_ref s,
     io (s\<lparr>heap := (heap s)(next_ref s \<mapsto> \<lparr>key = k, val = None\<rparr>), next_ref := Suc (next_ref s),
          entries := AList.update k (next_ref s) (entries s),
          needs_fetch := AList.update k (next_ref s) (needs_fetch s)\<rparr>))"
  by (simp add: get_def Let_def)

lemma get_entry: "map_of (entries (snd (get k s))) k = Some (fst (get k s))"
  by (cases "map_of (entries s) k") (simp_all add: get_tracked get_untracked update_conv')

lemma get_keeps_entries:
  "map_of (entries s) k' = Some r \<Longrightarrow> map_of (entries (snd (get k s))) k' = Some r"
  by (cases "map_of (entries s) k") (auto simp: get_tracked get_untracked update_conv')

lemma get_calls [simp]: "kvs_calls (snd (get k s)) = kvs_calls s"
  and get_crashes [simp]: "crash_count (snd (get k s)) = crash_count s"
  and get_flush [simp]: "needs_flush (snd (get k s)) = needs_flush s"
  by (cases "map_of (entries s) k"; simp add: get_tracked get_untracked)+

lemma heap_ok_io [simp]: "heap_ok (io s) = heap_ok s"
  by (simp add: heap_ok_def)

lemma queues_ok_io [simp]: "queues_ok (io s) = queues_ok s"
  by (simp add: queues_ok_def)

lemma key_set_value [simp]: "map_option key (set_value r v h r') = map_option key (h r')"
  by (simp add: set_value_def option.map_comp comp_def)

lemma heap_ok_get: "heap_ok s \<Longrightarrow> heap_ok (snd (get k s))"
proof (cases "map_of (entries s) k")
  case None
  assume ok: "heap_ok s"
  show ?thesis
    using ok set_update_subset [of k "next_ref s" "entries s"]
    by (fastforce simp: get_untracked [OF None] heap_ok_def list_all_iff)
next
  case (Some e)
  assume "heap_ok s"
  then show ?thesis by (simp add: get_tracked [OF Some])
qed

lemma queues_okI:
  assumes "distinct (map fst (entries s))"
    and "\<And>k r. (k, r) \<in> set (needs_fetch s) \<Longrightarrow> map_of (entries s) k = Some r"
    and "\<And>k r. (k, r) \<in> set (needs_flush s) \<Longrightarrow> map_of (entries s) k = Some r"
  shows "queues_ok s"
  using assms by (auto simp: queues_ok_def list_all_iff)

lemma queues_okD:
  assumes "queues_ok s"
  shows "distinct (map fst (entries s))"
    and "(k, r) \<in> set (needs_fetch s) \<Longrightarrow> map_of (entries s) k = Some r"
    and "(k, r) \<in> set (needs_flush s) \<Longrightarrow> map_of (entries s) k = Some r"
  using assms by (auto simp: queues_ok_def list_all_iff)

lemma queues_ok_get: "queues_ok s \<Longrightarrow> queues_ok (snd (get k s))"
proof (cases "map_of (entries s) k")
  case None
  assume ok: "queues_ok s"
  let ?e = "next_ref s"
  have old: "map_of (entries (snd (get k s))) k' = Some r" if "map_of (entries s) k' = Some r" for k' r
    using that None by (auto simp: get_untracked [OF None] update_conv')
  have new: "map_of (entries (snd (get k s))) k = Some ?e"
    by (simp add: get_untracked [OF None] update_conv')
  show ?thesis
  proof (rule queues_okI)
    show "distinct (map fst (entries (snd (get k s))))"
      using queues_okD(1) [OF ok] by (simp add: get_untracked [OF None] distinct_update)
  next
    fix k' r
    assume "(k', r) \<in> set (needs_fetch (snd (get k s)))"
    then have "(k', r) = (k, ?e) \<or> (k', r) \<in> set (needs_fetch s)"
      using set_update_subset [of k ?e "needs_fetch s"] by (auto simp: get_untracked [OF None])
    then show "map_of (entries (snd (get k s))) k' = Some r"
      using queues_okD(2) [OF ok] old new by blast
  next
    fix k' r
    assume "(k', r) \<in> set (needs_flush (snd (get k s)))"
    then have "(k', r) \<in> set (needs_flush s)" by simp
    then show "map_of (entries (snd (get k s))) k' = Some r"
      using queues_okD(3) [OF ok] old by blast
  qed
next
  case (Some e)
  assume "queues_ok s"
  then show ?thesis by (simp add: get_tracked [OF Some])
qed

lemma set_entry_eq:
  "set_entry k v s =
     (fst (get k s),
      io ((snd (get k s))\<lparr>heap := set_value (fst (get k s)) (Some v) (heap (snd (get k s))),
            needs_flush := AList.update k (fst (get k s)) (needs_flush (snd (get k s))),
            needs_fetch := AList.delete k (needs_fetch (snd (get k s)))\<rparr>))"
  by (simp add: set_entry_def Let_def case_prod_beta)

lemma maybeInsert_eq:
  "maybeInsert k v s =
     (if value_at (snd (get k s)) (fst (get k s)) \<noteq> None then get k s
      else (fst (get k s),
        io ((snd (get k s))\<lparr>heap := set_value (fst (get k s)) (Some v) (heap (snd (get k s))),
              needs_fetch := AList.update k (fst (get k s)) (needs_fetch (snd (get k s))),
              needs_flush := AList.update k (fst (get k s)) (needs_flush (snd (get k s)))\<rparr>)))"
  by (simp add: maybeInsert_def Let_def case_prod_beta)

lemma heap_ok_cong:
  assumes "entries s' = entries s" "next_ref s' = next_ref s"
    and "\<And>r. map_option key (heap s' r) = map_option key (heap s r)"
  shows "heap_ok s' = heap_ok s"
  unfolding heap_ok_def assms ..

lemma queues_ok_cong:
  assumes "entries s' = entries s" "needs_fetch s' = needs_fetch s"
    "needs_flush s' = needs_flush s"
  shows "queues_ok s' = queues_ok s"
  unfolding queues_ok_def assms ..

lemma set_entry_fields:
  "entries (snd (set_entry k v s)) = entries (snd (get k s))"
  "next_ref (snd (set_entry k v s)) = next_ref (snd (get k s))"
  "heap (snd (set_entry k v s)) = set_value (fst (get k s)) (Some v) (heap (snd (get k s)))"
  "needs_flush (snd (set_entry k v s)) = AList.update k (fst (get k s)) (needs_flush s)"
  "needs_fetch (snd (set_entry k v s)) = AList.delete k (needs_fetch (snd (get k s)))"
  "kvs_calls (snd (set_entry k v s)) = kvs_calls s"
  "crash_count (snd (set_entry k v s)) = crash_count s"
  "fst (set_entry k v s) = fst (get k s)"
  by (simp_all add: set_entry_eq)

lemma maybeInsert_noop:
  "value_at (snd (get k s)) (fst (get k s)) \<noteq> None \<Longrightarrow> maybeInsert k v s = get k s"
  by (simp add: maybeInsert_eq)

lemma maybeInsert_fields:
  assumes "value_at (snd (get k s)) (fst (get k s)) = None"
  shows
  "entries (snd (maybeInsert k v s)) = entries (snd (get k s))"
  "next_ref (snd (maybeInsert k v s)) = next_ref (snd (get k s))"
  "heap (snd (maybeInsert k v s)) = set_value (fst (get k s)) (Some v) (heap (snd (get k s)))"
  "needs_flush (snd (maybeInsert k v s)) = AList.update k (fst (get k s)) (needs_flush s)"
  "needs_fetch (snd (maybeInsert k v s)) = AList.update k (fst (get k s)) (needs_fetch (snd (get k s)))"
  "kvs_calls (snd (maybeInsert k v s)) = kvs_calls s"
  "crash_count (snd (maybeInsert k v s)) = crash_count s"
  "fst (maybeInsert k v s) = fst (get k s)"
  using assms by (simp_all add: maybeInsert_eq)

lemma heap_ok_set_entry: "heap_ok s \<Longrightarrow> heap_ok (snd (set_entry k v s))"
proof -
  assume "heap_ok s"
  then have "heap_ok (snd (get k s))" by (rule heap_ok_get)
  moreover have "heap_ok (snd (set_entry k v s)) = heap_ok (snd (get k s))"
    by (rule heap_ok_cong) (simp_all add: set_entry_fields)
  ultimately show ?thesis by simp
qed

lemma heap_ok_maybeInsert: "heap_ok s \<Longrightarrow> heap_ok (snd (maybeInsert k v s))"
proof (cases "value_at (snd (get k s)) (fst (get k s)) = None")
  case True
  assume "heap_ok s"
  then have "heap_ok (snd (get k s))" by (rule heap_ok_get)
  moreover have "heap_ok (snd (maybeInsert k v s)) = heap_ok (snd (get k s))"
    by (rule heap_ok_cong) (simp_all add: maybeInsert_fields [OF True])
  ultimately show ?thesis by simp
next
  case False
  assume "heap_ok s"
  then show ?thesis by (simp add: maybeInsert_noop [OF False] heap_ok_get)
qed

lemma queues_ok_step:
  assumes ok: "queues_ok s" and ents: "entries s' = entries s"
    and fetch: "set (needs_fetch s') \<subseteq> set (needs_fetch s) \<union> {(k, r). map_of (entries s) k = Some r}"
    and flush: "set (needs_flush s') \<subseteq> set (needs_flush s) \<union> {(k, r). map_of (entries s) k = Some r}"
  shows "queues_ok s'"
proof (rule queues_okI)
  show "distinct (map fst (entries s'))" using queues_okD(1) [OF ok] ents by simp
next
  fix k r assume "(k, r) \<in> set (needs_fetch s')"
  with fetch queues_okD(2) [OF ok] show "map_of (entries s') k = Some r" unfolding ents by blast
next
  fix k r assume "(k, r) \<in> set (needs_flush s')"
  with flush queues_okD(3) [OF ok] show "map_of (entries s') k = Some r" unfolding ents by blast
qed

lemma queues_ok_set_entry: "queues_ok s \<Longrightarrow> queues_ok (snd (set_entry k v s))"
proof -
  assume "queues_ok s"
  then have ok: "queues_ok (snd (get k s))" by (rule queues_ok_get)
  show ?thesis
  proof (rule queues_ok_step [OF ok])
    show "set (needs_fetch (snd (set_entry k v s)))
      \<subseteq> set (needs_fetch (snd (get k s))) \<union> {(k', r). map_of (entries (snd (get k s))) k' = Some r}"
      using set_delete_subset [of k "needs_fetch (snd (get k s))"]
      by (auto simp: set_entry_fields)
    show "set (needs_flush (snd (set_entry k v s)))
      \<subseteq> set (needs_flush (snd (get k s))) \<union> {(k', r). map_of (entries (snd (get k s))) k' = Some r}"
      using set_update_subset [of k "fst (get k s)" "needs_flush s"] get_entry [of k s]
      by (auto simp: set_entry_fields)
  qed (simp add: set_entry_fields)
qed

lemma queues_ok_maybeInsert: "queues_ok s \<Longrightarrow> queues_ok (snd (maybeInsert k v s))"
proof (cases "value_at (snd (get k s)) (fst (get k s)) = None")
  case True
  assume "queues_ok s"
  then have ok: "queues_ok (snd (get k s))" by (rule queues_ok_get)
  show ?thesis
  proof (rule queues_ok_step [OF ok])
    show "set (needs_fetch (snd (maybeInsert k v s)))
      \<subseteq> set (needs_fetch (snd (get k s))) \<union> {(k', r). map_of (entries (snd (get k s))) k' = Some r}"
      using set_update_subset [of k "fst (get k s)" "needs_fetch (snd (get k s))"] get_entry [of k s]
      by (auto simp: maybeInsert_fields [OF True])
    show "set (needs_flush (snd (maybeInsert k v s)))
      \<subseteq> set (needs_flush (snd (get k s))) \<union> {(k', r). map_of (entries (snd (get k s))) k' = Some r}"
      using set_update_subset [of k "fst (get k s)" "needs_flush s"] get_entry [of k s]
      by (auto simp: maybeInsert_fields [OF True])
  qed (simp add: maybeInsert_fields [OF True])
next
  case False
  assume "queues_ok s"
  then show ?thesis by (simp add: maybeInsert_noop [OF False] queues_ok_get)
qed

lemma update_untracked_id: "map_of (entries s) k = None \<Longrightarrow> update k v s = s"
  by (simp add: update_def)

lemma update_tracked:
  "map_of (entries s) k = Some ent \<Longrightarrow>
   update k v s = s\<lparr>heap := set_value ent v (heap s),
            needs_fetch := AList.delete k (needs_fetch s),
            needs_flush := AList.delete k (needs_flush s)\<rparr>"
  by (simp add: update_def)

lemma heap_ok_update: "heap_ok s \<Longrightarrow> heap_ok (update k v s)"
proof (cases "map_of (entries s) k")
  case None
  assume "heap_ok s"
  then show ?thesis by (simp add: update_untracked_id [OF None])
next
  case (Some ent)
  assume ok: "heap_ok s"
  have "heap_ok (update k v s) = heap_ok s"
    by (rule heap_ok_cong) (simp_all add: update_tracked [OF Some])
  with ok show ?thesis by simp
qed

lemma queues_ok_update: "queues_ok s \<Longrightarrow> queues_ok (update k v s)"
proof (cases "map_of (entries s) k")
  case None
  assume "queues_ok s"
  then show ?thesis by (simp add: update_untracked_id [OF None])
next
  case (Some ent)
  assume ok: "queues_ok s"
  show ?thesis
    using set_delete_subset [of k "needs_fetch s"] set_delete_subset [of k "needs_flush s"]
    by (intro queues_ok_step [OF ok]) (auto simp: update_tracked [OF Some])
qed

lemma entries_update [simp]: "entries (update k v s) = entries s"
  and calls_update [simp]: "kvs_calls (update k v s) = kvs_calls s"
  and crashes_update [simp]: "crash_count (update k v s) = crash_count s"
  and pending_update [simp]: "pending_io (update k v s) = pending_io s"
  and next_ref_update [simp]: "next_ref (update k v s) = next_ref s"
  by (simp_all add: update_def split: option.splits)

lemma fetched_Nil [simp]: "fetched [] s = s"
  and fetched_Cons [simp]: "fetched (e # es) s = fetched es (update (key e) (Some (val e)) s)"
  by (simp_all add: fetched_def)

lemma onSet_fetched: "onSet es s = fetched es s"
  by (simp add: onSet_def fetched_def)

lemma onDelete_Nil [simp]: "onDelete [] s = s"
  and onDelete_Cons [simp]: "onDelete (k # ks) s = onDelete ks (update k None s)"
  by (simp_all add: onDelete_def)

lemma fetched_fields [simp]:
  "entries (fetched es s) = entries s" "kvs_calls (fetched es s) = kvs_calls s"
  "crash_count (fetched es s) = crash_count s" "pending_io (fetched es s) = pending_io s"
  by (induction es arbitrary: s; simp)+

lemma onDelete_fields [simp]:
  "entries (onDelete ks s) = entries s" "kvs_calls (onDelete ks s) = kvs_calls s"
  "crash_count (onDelete ks s) = crash_count s" "pending_io (onDelete ks s) = pending_io s"
  by (induction ks arbitrary: s; simp)+

lemma heap_ok_fetched: "heap_ok s \<Longrightarrow> heap_ok (fetched es s)"
  by (induction es arbitrary: s) (simp_all add: heap_ok_update)

lemma heap_ok_onDelete: "heap_ok s \<Longrightarrow> heap_ok (onDelete ks s)"
  by (induction ks arbitrary: s) (simp_all add: heap_ok_update)

lemma queues_ok_fetched: "queues_ok s \<Longrightarrow> queues_ok (fetched es s)"
  by (induction es arbitrary: s) (simp_all add: queues_ok_update)

lemma queues_ok_onDelete: "queues_ok s \<Longrightarrow> queues_ok (onDelete ks s)"
  by (induction ks arbitrary: s) (simp_all add: queues_ok_update)

subsection \<open>Sync lost\<close>

lemma syncLost_fold_fields:
  "entries (foldl (\<lambda>s (k, v). s\<lparr>heap := set_value v None (heap s),
       needs_fetch := AList.update k v (needs_fetch s)\<rparr>) s xs) = entries s"
  "next_ref (foldl (\<lambda>s (k, v). s\<lparr>heap := set_value v None (heap s),
       needs_fetch := AList.update k v (needs_fetch s)\<rparr>) s xs) = next_ref s"
  "needs_flush (foldl (\<lambda>s (k, v). s\<lparr>heap := set_value v None (heap s),
       needs_fetch := AList.update k v (needs_fetch s)\<rparr>) s xs) = needs_flush s"
  "kvs_calls (foldl (\<lambda>s (k, v). s\<lparr>heap := set_value v None (heap s),
       needs_fetch := AList.update k v (needs_fetch s)\<rparr>) s xs) = kvs_calls s"
  "crash_count (foldl (\<lambda>s (k, v). s\<lparr>heap := set_value v None (heap s),
       needs_fetch := AList.update k v (needs_fetch s)\<rparr>) s xs) = crash_count s"
  "pending_io (foldl (\<lambda>s (k, v). s\<lparr>heap := set_value v None (heap s),
       needs_fetch := AList.update k v (needs_fetch s)\<rparr>) s xs) = pending_io s"
  by (induction xs arbitrary: s; simp add: case_prod_beta)+

lemma syncLost_fold_fetch:
  "needs_fetch (foldl (\<lambda>s (k, v). s\<lparr>heap := set_value v None (heap s),
       needs_fetch := AList.update k v (needs_fetch s)\<rparr>) s xs)
   = foldl (\<lambda>q (k, v). AList.update k v q) (needs_fetch s) xs"
  by (induction xs arbitrary: s) (simp_all add: case_prod_beta)

lemma syncLost_fold_heap:
  "heap (foldl (\<lambda>s (k, v). s\<lparr>heap := set_value v None (heap s),
       needs_fetch := AList.update k v (needs_fetch s)\<rparr>) s xs)
   = foldl (\<lambda>h (k, v). set_value v None h) (heap s) xs"
  by (induction xs arbitrary: s) (simp_all add: case_prod_beta)

lemma set_value_apply:
  "set_value r v h r' = (if r' = r then map_option (\<lambda>e. e\<lparr>val := v\<rparr>) (h r) else h r')"
  by (simp add: set_value_def)

lemma cleared_heap:
  "foldl (\<lambda>h (k, v). set_value v None h) h xs r =
     (if r \<in> snd ` set xs then map_option (\<lambda>e. e\<lparr>val := None\<rparr>) (h r) else h r)"
proof (induction xs arbitrary: h)
  case Nil
  then show ?case by simp
next
  case (Cons x xs)
  obtain k v where x: "x = (k, v)" by (cases x)
  have "foldl (\<lambda>h (k, v). set_value v None h) h (x # xs) r
      = foldl (\<lambda>h (k, v). set_value v None h) (set_value v None h) xs r"
    by (simp add: x)
  also have "\<dots> = (if r \<in> snd ` set xs
      then map_option (\<lambda>e. e\<lparr>val := None\<rparr>) (set_value v None h r) else set_value v None h r)"
    by (rule Cons.IH)
  also have "\<dots> = (if r \<in> snd ` set (x # xs)
      then map_option (\<lambda>e. e\<lparr>val := None\<rparr>) (h r) else h r)"
    by (simp add: x set_value_apply option.map_comp comp_def)
  finally show ?case .
qed

lemma enqueued_all_set:
  "set (foldl (\<lambda>q (k, v). AList.update k v q) q xs) \<subseteq> set q \<union> set xs"
proof (induction xs arbitrary: q)
  case Nil
  then show ?case by simp
next
  case (Cons x xs)
  obtain k v where x: "x = (k, v)" by (cases x)
  show ?case
    using Cons.IH [of "AList.update k v q"] set_update_subset [of k v q]
    by (auto simp: x)
qed

lemma enqueued_all_map_of:
  "map_of (foldl (\<lambda>q (k, v). AList.update k v q) q xs) = map_of q ++ map_of (rev xs)"
proof (induction xs arbitrary: q)
  case Nil
  then show ?case by simp
next
  case (Cons x xs)
  obtain k v where x: "x = (k, v)" by (cases x)
  show ?case
    by (simp add: x Cons.IH update_conv' map_add_def fun_eq_iff split: option.splits)
qed

lemma enqueued_all_lookup:
  assumes "distinct (map fst xs)" "(k, r) \<in> set xs"
  shows "map_of (foldl (\<lambda>q (k, v). AList.update k v q) q xs) k = Some r"
proof -
  have "distinct (map fst (rev xs))" using assms(1) by (simp add: rev_map [symmetric])
  then have "map_of (rev xs) k = Some r" using assms(2) by simp
  then show ?thesis by (simp add: enqueued_all_map_of)
qed

lemma onSyncLost_fields [simp]:
  "entries (onSyncLost s) = entries s" "next_ref (onSyncLost s) = next_ref s"
  "needs_flush (onSyncLost s) = needs_flush s" "kvs_calls (onSyncLost s) = kvs_calls s"
  "crash_count (onSyncLost s) = crash_count s"
  by (simp_all add: onSyncLost_def syncLost_fold_fields)

lemma onSyncLost_fetch:
  "needs_fetch (onSyncLost s) = foldl (\<lambda>q (k, v). AList.update k v q) (needs_fetch s) (entries s)"
  by (simp add: onSyncLost_def syncLost_fold_fetch)

lemma onSyncLost_heap:
  "heap (onSyncLost s) r =
     (if r \<in> snd ` set (entries s) then map_option (\<lambda>e. e\<lparr>val := None\<rparr>) (heap s r) else heap s r)"
  by (simp add: onSyncLost_def syncLost_fold_heap cleared_heap)

lemma heap_ok_onSyncLost: "heap_ok s \<Longrightarrow> heap_ok (onSyncLost s)"
proof -
  have "heap_ok (onSyncLost s) = heap_ok s"
    by (rule heap_ok_cong) (simp_all add: onSyncLost_heap option.map_comp comp_def)
  then show "heap_ok s \<Longrightarrow> heap_ok (onSyncLost s)" by simp
qed

lemma queues_ok_onSyncLost: "queues_ok s \<Longrightarrow> queues_ok (onSyncLost s)"
proof -
  assume ok: "queues_ok s"
  have "(k, r) \<in> set (entries s) \<Longrightarrow> map_of (entries s) k = Some r" for k r
    using queues_okD(1) [OF ok] by simp
  then show ?thesis
    using enqueued_all_set [of "needs_fetch s" "entries s"]
    by (intro queues_ok_step [OF ok]) (auto simp: onSyncLost_fetch)
qed

subsection \<open>The background loop\<close>

lemma next_get_fields [simp]:
  "entries (next_get bs s) = entries s" "heap (next_get bs s) = heap s"
  "next_ref (next_get bs s) = next_ref s" "needs_fetch (next_get bs s) = needs_fetch s"
  "needs_flush (next_get bs s) = needs_flush s" "crash_count (next_get bs s) = crash_count s"
  "pending_io (next_get bs s) \<noteq> Idle"
  by (cases bs; simp)+

lemma next_set_fields [simp]:
  "entries (next_set bs s) = entries s" "heap (next_set bs s) = heap s"
  "next_ref (next_set bs s) = next_ref s" "needs_fetch (next_set bs s) = needs_fetch s"
  "needs_flush (next_set bs s) = needs_flush s" "crash_count (next_set bs s) = crash_count s"
  "pending_io (next_set bs s) \<noteq> Idle"
  by (cases bs; simp add: Let_def)+

lemma fetch_fields [simp]:
  "entries (fetch s) = entries s" "heap (fetch s) = heap s"
  "next_ref (fetch s) = next_ref s" "needs_fetch (fetch s) = []"
  "needs_flush (fetch s) = needs_flush s" "crash_count (fetch s) = crash_count s"
  "pending_io (fetch s) \<noteq> Idle"
  by (simp_all add: fetch_def Let_def)

lemma flush_fields [simp]:
  "entries (flush s) = entries s" "heap (flush s) = heap s"
  "next_ref (flush s) = next_ref s" "needs_fetch (flush s) = needs_fetch s"
  "needs_flush (flush s) = []" "crash_count (flush s) = crash_count s"
  "pending_io (flush s) \<noteq> Idle"
  by (simp_all add: flush_def Let_def)

lemma loop_fields [simp]:
  "entries (loop s) = entries s" "heap (loop s) = heap s"
  "next_ref (loop s) = next_ref s" "needs_flush (loop s) = needs_flush s"
  "crash_count (loop s) = crash_count s"
  by (simp_all add: loop_def finish_def)

lemma loop_fetch_subset: "set (needs_fetch (loop s)) \<subseteq> set (needs_fetch s)"
  by (simp add: loop_def finish_def)

lemma crash_fields [simp]:
  "entries (crash s) = entries s" "heap (crash s) = heap s"
  "next_ref (crash s) = next_ref s" "needs_fetch (crash s) = needs_fetch s"
  "needs_flush (crash s) = needs_flush s" "crash_count (crash s) = Suc (crash_count s)"
  "pending_io (crash s) = Idle" "kvs_calls (crash s) = kvs_calls s"
  by (simp_all add: crash_def)

lemma fetched_next_ref [simp]: "next_ref (fetched es s) = next_ref s"
  by (induction es arbitrary: s) simp_all

lemma onDelete_next_ref [simp]: "next_ref (onDelete ks s) = next_ref s"
  by (induction ks arbitrary: s) simp_all

subsection \<open>Every step keeps a cache well formed\<close>

lemma heap_ok_step: "heap_ok s \<Longrightarrow> heap_ok (step ev s)"
proof (cases ev)
  case Resume
  assume ok: "heap_ok s"
  have "heap_ok (loop s) = heap_ok s" "heap_ok (flush s) = heap_ok s"
    by (rule heap_ok_cong; simp)+
  with ok show ?thesis by (simp add: Resume split: io_state.splits)
next
  case (GetDone es)
  assume ok: "heap_ok s"
  have "heap_ok (next_get bs (fetched es s)) = heap_ok (fetched es s)" for bs
    by (rule heap_ok_cong; simp)
  with ok show ?thesis by (simp add: GetDone heap_ok_fetched split: io_state.splits)
next
  case GetFailed
  assume ok: "heap_ok s"
  have "heap_ok (crash s) = heap_ok s" by (rule heap_ok_cong; simp)
  with ok show ?thesis by (simp add: GetFailed split: io_state.splits)
next
  case SetDone
  assume ok: "heap_ok s"
  have "heap_ok (next_set bs s) = heap_ok s" for bs by (rule heap_ok_cong; simp)
  with ok show ?thesis by (simp add: SetDone split: io_state.splits)
next
  case SetFailed
  assume ok: "heap_ok s"
  have "heap_ok (crash s) = heap_ok s" by (rule heap_ok_cong; simp)
  with ok show ?thesis by (simp add: SetFailed split: io_state.splits)
qed (simp_all add: heap_ok_get heap_ok_set_entry heap_ok_maybeInsert onSet_fetched
      heap_ok_fetched heap_ok_onDelete heap_ok_onSyncLost)

lemma queues_ok_step_event: "queues_ok s \<Longrightarrow> queues_ok (step ev s)"
proof (cases ev)
  case Resume
  assume ok: "queues_ok s"
  have "queues_ok (loop s)" using loop_fetch_subset [of s]
    by (intro queues_ok_step [OF ok]) auto
  moreover have "queues_ok (flush s)" by (intro queues_ok_step [OF ok]) auto
  ultimately show ?thesis using ok by (simp add: Resume split: io_state.splits)
next
  case (GetDone es)
  assume ok: "queues_ok s"
  have "queues_ok (next_get bs (fetched es s)) = queues_ok (fetched es s)" for bs
    by (rule queues_ok_cong; simp)
  with ok show ?thesis by (simp add: GetDone queues_ok_fetched split: io_state.splits)
next
  case GetFailed
  assume ok: "queues_ok s"
  have "queues_ok (crash s) = queues_ok s" by (rule queues_ok_cong; simp)
  with ok show ?thesis by (simp add: GetFailed split: io_state.splits)
next
  case SetDone
  assume ok: "queues_ok s"
  have "queues_ok (next_set bs s) = queues_ok s" for bs by (rule queues_ok_cong; simp)
  with ok show ?thesis by (simp add: SetDone split: io_state.splits)
next
  case SetFailed
  assume ok: "queues_ok s"
  have "queues_ok (crash s) = queues_ok s" by (rule queues_ok_cong; simp)
  with ok show ?thesis by (simp add: SetFailed split: io_state.splits)
qed (simp_all add: queues_ok_get queues_ok_set_entry queues_ok_maybeInsert onSet_fetched
      queues_ok_fetched queues_ok_onDelete queues_ok_onSyncLost)

lemma run_Nil: "run [] s = s"
  and run_Cons: "run (ev # evs) s = run evs (step ev s)"
  and run_append: "run (evs @ evs') s = run evs' (run evs s)"
  by (simp_all add: run_def)

lemma heap_ok_run: "heap_ok s \<Longrightarrow> heap_ok (run evs s)"
  by (induction evs arbitrary: s) (simp_all add: run_Nil run_Cons heap_ok_step)

lemma queues_ok_run: "queues_ok s \<Longrightarrow> queues_ok (run evs s)"
  by (induction evs arbitrary: s) (simp_all add: run_Nil run_Cons queues_ok_step_event)

lemma new_cache_ok: "heap_ok new_cache" "queues_ok new_cache"
  by (simp_all add: heap_ok_def queues_ok_def new_cache_def)

subsection \<open>Tracked keys stay tracked\<close>

lemma set_entry_keeps_entries:
  "map_of (entries s) k' = Some r \<Longrightarrow> map_of (entries (snd (set_entry k v s))) k' = Some r"
  by (simp add: set_entry_fields get_keeps_entries)

lemma maybeInsert_keeps_entries:
  "map_of (entries s) k' = Some r \<Longrightarrow> map_of (entries (snd (maybeInsert k v s))) k' = Some r"
  by (cases "value_at (snd (get k s)) (fst (get k s)) = None")
     (simp_all add: maybeInsert_fields maybeInsert_noop get_keeps_entries)

lemma step_keeps_entries:
  "map_of (entries s) k = Some r \<Longrightarrow> map_of (entries (step ev s)) k = Some r"
  by (cases ev)
     (simp_all add: get_keeps_entries set_entry_keeps_entries maybeInsert_keeps_entries
        onSet_fetched split: io_state.splits)

lemma run_keeps_entries:
  "map_of (entries s) k = Some r \<Longrightarrow> map_of (entries (run evs s)) k = Some r"
  by (induction evs arbitrary: s) (simp_all add: run_Nil run_Cons step_keeps_entries)

subsection \<open>Only touched keys are tracked\<close>

lemma get_keys: "fst ` set (entries (snd (get k s))) \<subseteq> insert k (fst ` set (entries s))"
  by (cases "map_of (entries s) k") (auto simp: get_tracked get_untracked dom_update)

lemma step_keys:
  "fst ` set (entries (step ev s)) \<subseteq> fst ` set (entries s) \<union> set (touched [ev])"
proof (cases ev)
  case (CallGet k)
  then show ?thesis using get_keys [of k s] by auto
next
  case (CallSet k v)
  then show ?thesis using get_keys [of k s] by (auto simp: set_entry_fields)
next
  case (CallMaybeInsert k v)
  then show ?thesis using get_keys [of k s]
    by (cases "value_at (snd (get k s)) (fst (get k s)) = None")
       (auto simp: maybeInsert_fields maybeInsert_noop)
qed (simp_all add: onSet_fetched split: io_state.splits)

lemma touched_Cons: "set (touched (ev # evs)) = set (touched [ev]) \<union> set (touched evs)"
  by (cases ev) auto

lemma run_keys:
  "fst ` set (entries (run evs s)) \<subseteq> fst ` set (entries s) \<union> set (touched evs)"
proof (induction evs arbitrary: s)
  case Nil
  then show ?case by (simp add: run_Nil)
next
  case (Cons ev evs)
  show ?case
    using Cons.IH [of "step ev s"] step_keys [of ev s]
    by (auto simp: run_Cons touched_Cons [of ev evs])
qed

lemma untouched_untracked:
  "k \<notin> set (touched evs) \<Longrightarrow> map_of (entries (run evs new_cache)) k = None"
proof -
  assume "k \<notin> set (touched evs)"
  with run_keys [of evs new_cache] have "k \<notin> fst ` set (entries (run evs new_cache))"
    by (auto simp: new_cache_def)
  then show ?thesis by (simp add: map_of_eq_None_iff)
qed

lemma fetched_untracked:
  "\<forall>e \<in> set es. map_of (entries s) (key e) = None \<Longrightarrow> fetched es s = s"
  by (induction es arbitrary: s) (simp_all add: update_untracked_id)

lemma onDelete_untracked:
  "\<forall>k \<in> set ks. map_of (entries s) k = None \<Longrightarrow> onDelete ks s = s"
  by (induction ks arbitrary: s) (simp_all add: update_untracked_id)

subsection \<open>Crashes\<close>

lemma io_pending:
  "pending_io (io s) = (if pending_io s = Idle \<and> crash_count s < 3 then Scheduled else pending_io s)"
  by (auto simp: io_def)

lemma get_pending:
  "pending_io (snd (get k s)) = pending_io s \<or>
   (pending_io s = Idle \<and> crash_count s < 3 \<and> pending_io (snd (get k s)) = Scheduled)"
  by (cases "map_of (entries s) k") (auto simp: get_tracked get_untracked io_pending)

lemma set_entry_pending:
  "pending_io (snd (set_entry k v s)) = pending_io s \<or>
   (pending_io s = Idle \<and> crash_count s < 3 \<and> pending_io (snd (set_entry k v s)) = Scheduled)"
  using get_pending [of k s] by (auto simp: set_entry_eq io_pending)

lemma maybeInsert_pending:
  "pending_io (snd (maybeInsert k v s)) = pending_io s \<or>
   (pending_io s = Idle \<and> crash_count s < 3 \<and> pending_io (snd (maybeInsert k v s)) = Scheduled)"
  using get_pending [of k s] by (auto simp: maybeInsert_eq io_pending)

lemma onSyncLost_pending:
  "pending_io (onSyncLost s) = pending_io s \<or>
   (pending_io s = Idle \<and> crash_count s < 3 \<and> pending_io (onSyncLost s) = Scheduled)"
  by (auto simp: onSyncLost_def io_pending syncLost_fold_fields)

lemma maybeInsert_crashes [simp]: "crash_count (snd (maybeInsert k v s)) = crash_count s"
  and maybeInsert_calls [simp]: "kvs_calls (snd (maybeInsert k v s)) = kvs_calls s"
  by (cases "value_at (snd (get k s)) (fst (get k s)) = None";
      simp add: maybeInsert_fields maybeInsert_noop)+

lemma step_disabled:
  assumes "3 \<le> crash_count s" "pending_io s = Idle"
  shows "kvs_calls (step ev s) = kvs_calls s \<and> crash_count (step ev s) = crash_count s \<and>
         pending_io (step ev s) = Idle"
proof (cases ev)
  case (CallGet k)
  then show ?thesis using assms get_pending [of k s] by auto
next
  case (CallSet k v)
  then show ?thesis using assms set_entry_pending [of k v s] by (auto simp: set_entry_fields)
next
  case (CallMaybeInsert k v)
  then show ?thesis using assms maybeInsert_pending [of k v s] by auto
next
  case NotifySyncLost
  then show ?thesis using assms onSyncLost_pending [of s] by auto
qed (simp_all add: assms onSet_fetched)

lemma run_disabled:
  assumes "3 \<le> crash_count s" "pending_io s = Idle"
  shows "kvs_calls (run evs s) = kvs_calls s \<and> crash_count (run evs s) = crash_count s \<and>
         pending_io (run evs s) = Idle"
  using assms
proof (induction evs arbitrary: s)
  case Nil
  then show ?case by (simp add: run_Nil)
next
  case (Cons ev evs)
  from step_disabled [OF Cons.prems, of ev] Cons.IH [of "step ev s"] Cons.prems(1)
  show ?case by (simp add: run_Cons)
qed

lemma step_crash_inv: "crash_inv s \<Longrightarrow> crash_inv (step ev s)"
proof (cases "3 \<le> crash_count s")
  case True
  assume "crash_inv s"
  with True have "pending_io s = Idle" by (simp add: crash_inv_def)
  from step_disabled [OF True this, of ev] show ?thesis by (simp add: crash_inv_def)
next
  case False
  show ?thesis
  proof (cases ev)
    case (CallGet k)
    then show ?thesis using False by (simp add: crash_inv_def)
  next
    case (CallSet k v)
    then show ?thesis using False by (simp add: crash_inv_def set_entry_fields)
  next
    case (CallMaybeInsert k v)
    then show ?thesis using False by (simp add: crash_inv_def)
  next
    case (NotifySet es)
    then show ?thesis using False by (simp add: crash_inv_def onSet_fetched)
  next
    case (NotifyDelete ks)
    then show ?thesis using False by (simp add: crash_inv_def)
  next
    case NotifySyncLost
    then show ?thesis using False by (simp add: crash_inv_def)
  next
    case Resume
    then show ?thesis using False by (simp add: crash_inv_def split: io_state.splits)
  next
    case (GetDone es)
    then show ?thesis using False by (simp add: crash_inv_def split: io_state.splits)
  next
    case GetFailed
    then show ?thesis using False by (simp add: crash_inv_def split: io_state.splits)
  next
    case SetDone
    then show ?thesis using False by (simp add: crash_inv_def split: io_state.splits)
  next
    case SetFailed
    then show ?thesis using False by (simp add: crash_inv_def split: io_state.splits)
  qed
qed

lemma run_crash_inv: "crash_inv s \<Longrightarrow> crash_inv (run evs s)"
  by (induction evs arbitrary: s) (simp_all add: run_Nil run_Cons step_crash_inv)

lemma crashed_is_idle:
  "3 \<le> crash_count (run evs new_cache) \<Longrightarrow> pending_io (run evs new_cache) = Idle"
  using run_crash_inv [of new_cache evs] by (simp add: crash_inv_def new_cache_def)

lemma heap_ok_tracked:
  assumes "heap_ok s" "map_of (entries s) k = Some ent"
  obtains e where "heap s ent = Some e" "key e = k"
proof -
  from assms(2) have "(k, ent) \<in> set (entries s)" by (rule map_of_SomeD)
  with assms(1) have "map_option key (heap s ent) = Some k"
    by (auto simp: heap_ok_def list_all_iff)
  then show ?thesis using that by auto
qed

lemma heap_ok_inj:
  assumes "heap_ok s" "map_of (entries s) k = Some ent" "map_of (entries s) k' = Some ent"
  shows "k' = k"
  using heap_ok_tracked [OF assms(1,2)] heap_ok_tracked [OF assms(1,3)] by (metis option.inject)

lemma set_value_tracked:
  assumes "heap s ent = Some e" "key e = k"
  shows "set_value ent v (heap s) ent = Some \<lparr>key = k, val = v\<rparr>"
  using assms by (cases e) (simp add: set_value_def)

lemma update_sets:
  assumes "heap_ok s" "map_of (entries s) k = Some ent"
  shows "heap (update k v s) ent = Some \<lparr>key = k, val = v\<rparr>"
    and "k \<notin> fst ` set (needs_fetch (update k v s))"
    and "k \<notin> fst ` set (needs_flush (update k v s))"
proof -
  from heap_ok_tracked [OF assms] obtain e where e: "heap s ent = Some e" "key e = k" .
  show "heap (update k v s) ent = Some \<lparr>key = k, val = v\<rparr>"
    by (simp add: update_tracked [OF assms(2)] set_value_tracked [OF e])
  show "k \<notin> fst ` set (needs_fetch (update k v s))"
    by (simp add: update_tracked [OF assms(2)] delete_notin_dom)
  show "k \<notin> fst ` set (needs_flush (update k v s))"
    by (simp add: update_tracked [OF assms(2)] delete_notin_dom)
qed

lemma update_other:
  assumes "heap_ok s" "map_of (entries s) k = Some ent" "k' \<noteq> k"
  shows "heap (update k' v s) ent = heap s ent"
    and "fst ` set (needs_fetch (update k' v s)) \<subseteq> fst ` set (needs_fetch s)"
    and "fst ` set (needs_flush (update k' v s)) \<subseteq> fst ` set (needs_flush s)"
proof -
  show "heap (update k' v s) ent = heap s ent"
  proof (cases "map_of (entries s) k'")
    case None
    then show ?thesis by (simp add: update_untracked_id)
  next
    case (Some ent')
    with heap_ok_inj [OF assms(1,2)] assms(3) have "ent' \<noteq> ent" by auto
    then show ?thesis by (simp add: update_tracked [OF Some] set_value_apply)
  qed
  show "fst ` set (needs_fetch (update k' v s)) \<subseteq> fst ` set (needs_fetch s)"
    by (cases "map_of (entries s) k'")
       (simp_all add: update_untracked_id update_tracked dom_delete_subset)
  show "fst ` set (needs_flush (update k' v s)) \<subseteq> fst ` set (needs_flush s)"
    by (cases "map_of (entries s) k'")
       (simp_all add: update_untracked_id update_tracked dom_delete_subset)
qed

lemma fetched_snoc: "fetched (es @ [e]) s = update (key e) (Some (val e)) (fetched es s)"
  by (simp add: fetched_def)

lemma fetched_value_snoc:
  "fetched_value (es @ [e]) k = (if key e = k then Some (val e) else fetched_value es k)"
  by (simp add: fetched_value_def)

lemma fetched_delivers:
  assumes "heap_ok s" "map_of (entries s) k = Some ent" "fetched_value es k = Some v2"
  shows "heap (fetched es s) ent = Some \<lparr>key = k, val = Some v2\<rparr> \<and>
         k \<notin> fst ` set (needs_fetch (fetched es s)) \<and>
         k \<notin> fst ` set (needs_flush (fetched es s))"
  using assms(3)
proof (induction es rule: rev_induct)
  case Nil
  then show ?case by (simp add: fetched_value_def)
next
  case (snoc e es)
  let ?s = "fetched es s"
  have ok: "heap_ok ?s" by (rule heap_ok_fetched [OF assms(1)])
  have tr: "map_of (entries ?s) k = Some ent" using assms(2) by simp
  show ?case
  proof (cases "key e = k")
    case True
    with snoc.prems have "val e = v2" by (simp add: fetched_value_snoc)
    with True update_sets [OF ok tr, of "Some v2"] show ?thesis
      by (simp add: fetched_snoc)
  next
    case False
    with snoc.prems have "fetched_value es k = Some v2" by (simp add: fetched_value_snoc)
    from snoc.IH [OF this] update_other [OF ok tr False, of "Some (val e)"]
    show ?thesis by (auto simp: fetched_snoc)
  qed
qed

lemma set_entry_stores:
  assumes "heap_ok s"
  shows "heap (snd (set_entry k v s)) (fst (set_entry k v s)) = Some \<lparr>key = k, val = Some v\<rparr>"
proof -
  have tr: "map_of (entries (snd (get k s))) k = Some (fst (get k s))" by (rule get_entry)
  from heap_ok_tracked [OF heap_ok_get [OF assms] tr]
  obtain e where e: "heap (snd (get k s)) (fst (get k s)) = Some e" "key e = k" .
  show ?thesis by (simp add: set_entry_fields set_value_tracked [OF e])
qed

lemma demo_cache_ok: "heap_ok demo_cache" "queues_ok demo_cache"
  unfolding demo_cache_def by (intro heap_ok_run queues_ok_run new_cache_ok)+

lemma demo_cache_fields:
  "entries demo_cache = [(1, 0), (2, 1), (3, 2)]"
  "needs_flush demo_cache = [(1, 0), (3, 2)]"
  "needs_fetch demo_cache = [(2, 1), (3, 2)]"
  "heap demo_cache 0 = Some \<lparr>key = 1, val = Some ''a''\<rparr>"
  "heap demo_cache (Suc 0) = Some \<lparr>key = 2, val = None\<rparr>"
  "heap demo_cache 2 = Some \<lparr>key = 3, val = Some ''c''\<rparr>"
  by code_simp+

lemma crashed_cache_fields:
  "crash_count crashed_cache = 3"
  "kvs_calls crashed_cache = [KvsGet [1], KvsGet [2], KvsSet [\<lparr>key = 3, val = Some ''c''\<rparr>]]"
  by code_simp+

lemma maybeInsert_end_to_end:
  "kvs_calls (run [CallMaybeInsert 1 ''mine'', Resume, GetDone [\<lparr>key = 1, val = ''theirs''\<rparr>],
       Resume, Resume] (new_cache :: (nat, string) KVSCache)) = [KvsGet [1]]"
  "kvs_calls (run [CallMaybeInsert 1 ''mine'', Resume, GetDone [], Resume, SetDone, Resume]
       (new_cache :: (nat, string) KVSCache))
     = [KvsGet [1], KvsSet [\<lparr>key = 1, val = Some ''mine''\<rparr>]]"
  by code_simp+

subsection \<open>What the users of a cache observe\<close>

text \<open>The theorems below are about caches that are \<^const>\<open>heap_ok\<close> (or
  \<^const>\<open>queues_ok\<close>): by \<open>new_cache_ok\<close>, \<open>heap_ok_run\<close> and \<open>queues_ok_run\<close> these are
  properties of every cache that a sequence of events has produced from a new one.\<close>

text \<open>
  C8. Right after \<^verbatim>\<open>set(k, v)\<close> has returned, \<^verbatim>\<open>get(k)\<close> returns the same entry object,
  without changing the cache, and the value of that entry is \<open>v\<close>; the entry is in the
  flush queue under \<open>k\<close>, and \<open>k\<close> is not in the fetch queue. Nothing of the background
  loop has run in between.
\<close>

theorem set_then_get:
  assumes "heap_ok s"
  shows "case set_entry k v s of (ent, s1) \<Rightarrow>
           get k s1 = (ent, s1) \<and> heap s1 ent = Some \<lparr>key = k, val = Some v\<rparr> \<and>
           map_of (needs_flush s1) k = Some ent \<and> k \<notin> fst ` set (needs_fetch s1)"
proof -
  let ?ent = "fst (get k s)" and ?s1 = "snd (set_entry k v s)"
  have "get k ?s1 = (?ent, ?s1)"
    by (rule get_tracked) (simp add: set_entry_fields get_entry)
  moreover have "heap ?s1 ?ent = Some \<lparr>key = k, val = Some v\<rparr>"
    using set_entry_stores [OF assms, of k v] by (simp add: set_entry_fields)
  moreover have "map_of (needs_flush ?s1) k = Some ?ent"
    by (simp add: set_entry_fields update_conv')
  moreover have "k \<notin> fst ` set (needs_fetch ?s1)"
    by (simp add: set_entry_fields delete_notin_dom)
  ultimately show ?thesis by (simp add: case_prod_beta set_entry_fields)
qed

theorem set_then_get_witness:
  "heap_ok demo_cache \<and>
   (case set_entry 2 ''b'' demo_cache of (ent, s1) \<Rightarrow>
      get 2 s1 = (ent, s1) \<and> heap s1 ent = Some \<lparr>key = 2, val = Some ''b''\<rparr> \<and>
      map_of (needs_flush s1) 2 = Some ent \<and> 2 \<notin> fst ` set (needs_fetch s1)) \<and>
   fst (set_entry 2 ''b'' demo_cache) = Suc 0"
proof -
  have "fst (set_entry 2 ''b'' demo_cache) = Suc 0"
    by (simp add: set_entry_fields get_tracked demo_cache_fields)
  with set_then_get [OF demo_cache_ok(1), of 2 "''b''"] demo_cache_ok(1)
  show ?thesis by simp
qed

text \<open>
  C5. For a key \<open>k\<close> that the cache tracks, the notification \<^verbatim>\<open>onDelete([k])\<close> leaves the
  entry of \<open>k\<close> with no value, and \<open>k\<close> in neither the fetch queue nor the flush queue,
  whatever was queued for \<open>k\<close> before.
\<close>

theorem onDelete_clears_entry:
  assumes "heap_ok s" and "map_of (entries s) k = Some ent"
  shows "let s' = onDelete [k] s in
           get k s' = (ent, s') \<and> heap s' ent = Some \<lparr>key = k, val = None\<rparr> \<and>
           k \<notin> fst ` set (needs_fetch s') \<and> k \<notin> fst ` set (needs_flush s')"
  using update_sets [OF assms, of None] assms(2)
  by (simp add: get_tracked)

theorem onDelete_clears_entry_witness:
  "heap_ok demo_cache \<and> map_of (entries demo_cache) 1 = Some 0 \<and>
   map_of (needs_flush demo_cache) 1 = Some 0 \<and>
   (let s' = onDelete [1] demo_cache in
      get 1 s' = (0, s') \<and> heap s' 0 = Some \<lparr>key = 1, val = None\<rparr> \<and>
      1 \<notin> fst ` set (needs_fetch s') \<and> 1 \<notin> fst ` set (needs_flush s'))"
proof -
  have tr: "map_of (entries demo_cache) 1 = Some 0" "map_of (needs_flush demo_cache) 1 = Some 0"
    by (simp_all add: demo_cache_fields)
  from onDelete_clears_entry [OF demo_cache_ok(1) tr(1)] tr demo_cache_ok(1)
  show ?thesis by simp
qed

text \<open>
  C6. The notification \<^verbatim>\<open>onSyncLost\<close> leaves the entries map as it was; afterwards every
  tracked entry has no value and is in the fetch queue under its key.
\<close>

theorem onSyncLost_refetches_all:
  assumes "heap_ok s" and "distinct (map fst (entries s))"
  shows "entries (onSyncLost s) = entries s \<and>
         (\<forall>(k, ent) \<in> set (entries s).
            heap (onSyncLost s) ent = Some \<lparr>key = k, val = None\<rparr> \<and>
            map_of (needs_fetch (onSyncLost s)) k = Some ent)"
proof (intro conjI ballI)
  show "entries (onSyncLost s) = entries s" by simp
next
  fix x assume x: "x \<in> set (entries s)"
  obtain k ent where kx: "x = (k, ent)" by (cases x)
  from x kx assms(2) have tr: "map_of (entries s) k = Some ent" by simp
  from heap_ok_tracked [OF assms(1) tr] obtain e where e: "heap s ent = Some e" "key e = k" .
  have "ent \<in> snd ` set (entries s)" using x kx by force
  then have "heap (onSyncLost s) ent = Some \<lparr>key = k, val = None\<rparr>"
    using e by (cases e) (simp add: onSyncLost_heap)
  moreover have "map_of (needs_fetch (onSyncLost s)) k = Some ent"
    using x kx by (simp add: onSyncLost_fetch enqueued_all_lookup [OF assms(2)])
  ultimately show "case x of (k, ent) \<Rightarrow>
      heap (onSyncLost s) ent = Some \<lparr>key = k, val = None\<rparr> \<and>
      map_of (needs_fetch (onSyncLost s)) k = Some ent"
    by (simp add: kx)
qed

theorem onSyncLost_refetches_all_witness:
  "heap_ok demo_cache \<and> distinct (map fst (entries demo_cache)) \<and>
   entries (onSyncLost demo_cache) = [(1, 0), (2, 1), (3, 2)] \<and>
   heap (onSyncLost demo_cache) 0 = Some \<lparr>key = 1, val = None\<rparr> \<and>
   heap (onSyncLost demo_cache) 1 = Some \<lparr>key = 2, val = None\<rparr> \<and>
   heap (onSyncLost demo_cache) 2 = Some \<lparr>key = 3, val = None\<rparr> \<and>
   map_of (needs_fetch (onSyncLost demo_cache)) 1 = Some 0 \<and>
   map_of (needs_fetch (onSyncLost demo_cache)) 2 = Some 1 \<and>
   map_of (needs_fetch (onSyncLost demo_cache)) 3 = Some 2"
proof -
  have d: "distinct (map fst (entries demo_cache))" by (simp add: demo_cache_fields)
  from onSyncLost_refetches_all [OF demo_cache_ok(1) d] d demo_cache_ok(1)
  show ?thesis by (simp add: demo_cache_fields)
qed

text \<open>
  C9. \<^const>\<open>queues_ok\<close> (what is queued under a key for fetch or for flush is the entry
  object that the entries map holds under that key) is kept by \<^verbatim>\<open>get\<close>, \<^verbatim>\<open>set\<close>,
  \<^verbatim>\<open>maybeInsert\<close> and by the three notification handlers.
\<close>

theorem queue_invariant_preserved:
  assumes "queues_ok s"
  shows "queues_ok (snd (get k s)) \<and> queues_ok (snd (set_entry k v s)) \<and>
         queues_ok (snd (maybeInsert k v s)) \<and> queues_ok (onSet es s) \<and>
         queues_ok (onDelete ks s) \<and> queues_ok (onSyncLost s)"
  using assms
  by (simp add: queues_ok_get queues_ok_set_entry queues_ok_maybeInsert onSet_fetched
      queues_ok_fetched queues_ok_onDelete queues_ok_onSyncLost)

theorem queue_invariant_preserved_witness:
  "queues_ok demo_cache \<and> needs_fetch demo_cache = [(2, 1), (3, 2)] \<and>
   needs_flush demo_cache = [(1, 0), (3, 2)] \<and>
   queues_ok (snd (get 4 demo_cache)) \<and> queues_ok (snd (set_entry 2 ''b'' demo_cache)) \<and>
   queues_ok (snd (maybeInsert 5 ''e'' demo_cache)) \<and>
   queues_ok (onSet [\<lparr>key = 1, val = ''z''\<rparr>] demo_cache) \<and>
   queues_ok (onDelete [3] demo_cache) \<and> queues_ok (onSyncLost demo_cache)"
  using queue_invariant_preserved [OF demo_cache_ok(2), where k = 4]
    queue_invariant_preserved [OF demo_cache_ok(2), where k = 2 and v = "''b''"]
    queue_invariant_preserved [OF demo_cache_ok(2), where k = 5 and v = "''e''"
      and es = "[\<lparr>key = 1, val = ''z''\<rparr>]" and ks = "[3]"]
    demo_cache_ok(2)
  by (simp add: demo_cache_fields)

text \<open>
  C10. A notification \<^verbatim>\<open>onSet\<close> or \<^verbatim>\<open>onDelete\<close> whose keys were never passed to \<^verbatim>\<open>get\<close>,
  \<^verbatim>\<open>set\<close> or \<^verbatim>\<open>maybeInsert\<close> leaves the cache as it is: the same entries, queues,
  entry objects and background loop.
\<close>

theorem notification_for_untracked_key:
  assumes "set (map key es) \<inter> set (touched evs) = {}"
    and "set ks \<inter> set (touched evs) = {}"
  shows "onSet es (run evs new_cache) = run evs new_cache \<and>
         onDelete ks (run evs new_cache) = run evs new_cache"
proof
  have "\<forall>e \<in> set es. map_of (entries (run evs new_cache)) (key e) = None"
    using assms(1) by (auto intro!: untouched_untracked)
  then show "onSet es (run evs new_cache) = run evs new_cache"
    by (simp add: onSet_fetched fetched_untracked)
  have "\<forall>k \<in> set ks. map_of (entries (run evs new_cache)) k = None"
    using assms(2) by (auto intro!: untouched_untracked)
  then show "onDelete ks (run evs new_cache) = run evs new_cache"
    by (rule onDelete_untracked)
qed

theorem notification_for_untracked_key_witness:
  "onSet [\<lparr>key = 7, val = ''x''\<rparr>] demo_cache = demo_cache \<and>
   onDelete [8] demo_cache = demo_cache"
  unfolding demo_cache_def
  by (rule notification_for_untracked_key) simp_all

text \<open>
  C3. When \<^verbatim>\<open>maybeInsert(k, v)\<close> is called while the entry of \<open>k\<close> has no value (or \<open>k\<close>
  is not tracked yet), the entry gets the value \<open>v\<close> and is queued for fetch and for
  flush. When later, after any further events, the answer to a \<^verbatim>\<open>kvs.get\<close> of the fetch
  carries the value \<open>v2\<close> for \<open>k\<close>, the entry has the value \<open>v2\<close> and \<open>k\<close> is in neither
  queue any more: the value of the store has replaced the one waiting to be flushed.
\<close>

theorem maybeInsert_fetch_overrides_flush:
  assumes "heap_ok s"
    and "Option.bind (getIfExists k s) (value_at s) = None"
    and "fetched_value es k = Some v2"
  shows "case maybeInsert k v s of (ent, s1) \<Rightarrow>
           heap s1 ent = Some \<lparr>key = k, val = Some v\<rparr> \<and>
           map_of (needs_fetch s1) k = Some ent \<and> map_of (needs_flush s1) k = Some ent \<and>
           (\<forall>evs. let s2 = fetched es (run evs s1) in
              get k s2 = (ent, s2) \<and> heap s2 ent = Some \<lparr>key = k, val = Some v2\<rparr> \<and>
              k \<notin> fst ` set (needs_flush s2) \<and> k \<notin> fst ` set (needs_fetch s2))"
proof -
  let ?ent = "fst (get k s)" and ?s0 = "snd (get k s)" and ?s1 = "snd (maybeInsert k v s)"
  have tr0: "map_of (entries ?s0) k = Some ?ent" by (rule get_entry)
  have ok0: "heap_ok ?s0" by (rule heap_ok_get [OF assms(1)])
  from heap_ok_tracked [OF ok0 tr0] obtain e where e: "heap ?s0 ?ent = Some e" "key e = k" .
  have unset: "value_at ?s0 ?ent = None"
  proof (cases "map_of (entries s) k")
    case None
    then show ?thesis by (simp add: get_untracked value_at_def)
  next
    case (Some ent)
    with assms(2) show ?thesis by (simp add: get_tracked getIfExists_def)
  qed
  note f = maybeInsert_fields [OF unset]
  have tr1: "map_of (entries ?s1) k = Some ?ent" by (simp add: f tr0)
  have ok1: "heap_ok ?s1" by (rule heap_ok_maybeInsert [OF assms(1)])
  have 1: "heap ?s1 ?ent = Some \<lparr>key = k, val = Some v\<rparr>"
    by (simp add: f set_value_tracked [OF e])
  have 2: "map_of (needs_fetch ?s1) k = Some ?ent" "map_of (needs_flush ?s1) k = Some ?ent"
    by (simp_all add: f update_conv')
  have 3: "get k (fetched es (run evs ?s1)) = (?ent, fetched es (run evs ?s1)) \<and>
      heap (fetched es (run evs ?s1)) ?ent = Some \<lparr>key = k, val = Some v2\<rparr> \<and>
      k \<notin> fst ` set (needs_flush (fetched es (run evs ?s1))) \<and>
      k \<notin> fst ` set (needs_fetch (fetched es (run evs ?s1)))" for evs
  proof -
    have ok: "heap_ok (run evs ?s1)" by (rule heap_ok_run [OF ok1])
    have tr: "map_of (entries (run evs ?s1)) k = Some ?ent" by (rule run_keeps_entries [OF tr1])
    from fetched_delivers [OF ok tr assms(3)] tr show ?thesis by (simp add: get_tracked)
  qed
  show ?thesis using 1 2 3 by (simp add: case_prod_beta f(8) Let_def)
qed

theorem maybeInsert_fetch_overrides_flush_witness:
  "heap_ok demo_cache \<and>
   Option.bind (getIfExists 2 demo_cache) (value_at demo_cache) = None \<and>
   fetched_value [\<lparr>key = 2, val = ''theirs''\<rparr>] (2::nat) = Some ''theirs'' \<and>
   (case maybeInsert 2 ''mine'' demo_cache of (ent, s1) \<Rightarrow>
      heap s1 ent = Some \<lparr>key = 2, val = Some ''mine''\<rparr> \<and>
      map_of (needs_fetch s1) 2 = Some ent \<and> map_of (needs_flush s1) 2 = Some ent \<and>
      (\<forall>evs. let s2 = fetched [\<lparr>key = 2, val = ''theirs''\<rparr>] (run evs s1) in
         get 2 s2 = (ent, s2) \<and> heap s2 ent = Some \<lparr>key = 2, val = Some ''theirs''\<rparr> \<and>
         2 \<notin> fst ` set (needs_flush s2) \<and> 2 \<notin> fst ` set (needs_fetch s2)))"
proof -
  have 1: "Option.bind (getIfExists 2 demo_cache) (value_at demo_cache) = None"
    by (simp add: getIfExists_def value_at_def demo_cache_fields)
  have 2: "fetched_value [\<lparr>key = 2, val = ''theirs''\<rparr>] (2::nat) = Some ''theirs''"
    by (simp add: fetched_value_def)
  from maybeInsert_fetch_overrides_flush [OF demo_cache_ok(1) 1 2, of "''mine''"]
  show ?thesis by (intro conjI demo_cache_ok(1) 1 2)
qed

text \<open>
  C4. Once the background loop of a cache has crashed three times, no later event
  makes the cache call the store it wraps, and no background loop is pending again.
  \<^verbatim>\<open>get\<close> and \<^verbatim>\<open>set\<close> on any key, tracked or new, still return an entry for that key
  (with the value just set, for \<^verbatim>\<open>set\<close>) and neither calls the store nor starts a loop.
\<close>

theorem io_disabled_after_three_crashes:
  assumes "3 \<le> crash_count (run evs new_cache)"
  shows "let s = run evs new_cache; s' = run evs' s in
           kvs_calls s' = kvs_calls s \<and> pending_io s' = Idle \<and>
           (case get k s' of (ent, s'') \<Rightarrow>
              map_option key (heap s'' ent) = Some k \<and>
              kvs_calls s'' = kvs_calls s \<and> pending_io s'' = Idle) \<and>
           (case set_entry k v s' of (ent, s'') \<Rightarrow>
              heap s'' ent = Some \<lparr>key = k, val = Some v\<rparr> \<and>
              kvs_calls s'' = kvs_calls s \<and> pending_io s'' = Idle)"
proof -
  let ?s = "run evs new_cache"
  have idle: "pending_io ?s = Idle" by (rule crashed_is_idle [OF assms])
  have dis: "kvs_calls (run evs'' ?s) = kvs_calls ?s \<and> pending_io (run evs'' ?s) = Idle"
    for evs''
    using run_disabled [OF assms idle, of evs''] by simp
  have ok: "heap_ok (run evs' ?s)" by (intro heap_ok_run new_cache_ok)
  have g: "run (evs' @ [CallGet k]) ?s = snd (get k (run evs' ?s))"
    and p: "run (evs' @ [CallSet k v]) ?s = snd (set_entry k v (run evs' ?s))"
    by (simp_all add: run_append run_Nil run_Cons)
  from heap_ok_tracked [OF heap_ok_get [OF ok] get_entry, of k]
  have "map_option key (heap (snd (get k (run evs' ?s))) (fst (get k (run evs' ?s)))) = Some k"
    by auto
  moreover have "heap (snd (set_entry k v (run evs' ?s))) (fst (set_entry k v (run evs' ?s)))
      = Some \<lparr>key = k, val = Some v\<rparr>"
    by (rule set_entry_stores [OF ok])
  ultimately show ?thesis
    using dis [of evs'] dis [of "evs' @ [CallGet k]"] dis [of "evs' @ [CallSet k v]"]
    unfolding g p by (simp add: case_prod_beta Let_def)
qed

theorem io_disabled_after_three_crashes_witness:
  "crash_count crashed_cache = 3 \<and>
   (let s = crashed_cache; s' = run [CallGet 4, CallSet 5 ''e'', NotifySyncLost, Resume] s in
      kvs_calls s' = kvs_calls s \<and> pending_io s' = Idle \<and>
      (case get 6 s' of (ent, s'') \<Rightarrow>
         map_option key (heap s'' ent) = Some 6 \<and>
         kvs_calls s'' = kvs_calls s \<and> pending_io s'' = Idle) \<and>
      (case set_entry 6 ''f'' s' of (ent, s'') \<Rightarrow>
         heap s'' ent = Some \<lparr>key = 6, val = Some ''f''\<rparr> \<and>
         kvs_calls s'' = kvs_calls s \<and> pending_io s'' = Idle))"
proof -
  have c: "3 \<le> crash_count crashed_cache" by (simp add: crashed_cache_fields)
  show ?thesis
    using io_disabled_after_three_crashes [OF c [unfolded crashed_cache_def]]
    unfolding crashed_cache_def [symmetric]
    by (intro conjI crashed_cache_fields(1))
qed

end
